theory Spec2Isabelle
  imports Main
begin

section \<open>EviLinEd: the document store and its two editing front-ends\<close>

text \<open>
  A shallow embedding of \<^verbatim>\<open>src/EVILINED.C\<close>. The program keeps its document in
  process-wide variables; the model collects them in one record that every function
  takes and returns. The environment the C code talks to (the allocator, standard
  input, the console, the keyboard and the file system) is part of the same record,
  so that a call of \<^verbatim>\<open>malloc\<close>, \<^verbatim>\<open>fgets\<close> or \<^verbatim>\<open>getch\<close> is a state transition like
  any other.

  Integers are modelled as \<open>int\<close>. The program is written for a 16-bit compiler;
  every quantity it computes from \<open>line_count\<close> (at most 1200) and from line lengths
  (at most 255) stays far inside that range, and where a caller-supplied number could
  leave it the theorems say so in a hypothesis.
\<close>

subsection \<open>Constants, characters and C library functions\<close>

definition MAX_LINES :: int where
  "MAX_LINES = 1200"

definition LINE_LEN :: nat where
  "LINE_LEN = 256"

definition INPUT_LEN :: nat where
  "INPUT_LEN = 512"

definition SCREEN_ROWS :: int where
  "SCREEN_ROWS = 24"

definition SCREEN_COLS :: int where
  "SCREEN_COLS = 80"

definition NUL :: char where
  "NUL = CHR 0x00"

definition LF :: char where
  "LF = CHR 0x0A"

definition CR :: char where
  "CR = CHR 0x0D"

definition isspace :: "char \<Rightarrow> bool" where
  "isspace c = (c = CHR '' '' \<or> (9 \<le> (of_char c :: nat) \<and> (of_char c :: nat) \<le> 13))"

definition isdigit :: "char \<Rightarrow> bool" where
  "isdigit c = (48 \<le> (of_char c :: nat) \<and> (of_char c :: nat) \<le> 57)"

definition tolower :: "char \<Rightarrow> char" where
  "tolower c = (if 65 \<le> (of_char c :: nat) \<and> (of_char c :: nat) \<le> 90
                then char_of ((of_char c :: nat) + 32) else c)"

definition toupper :: "char \<Rightarrow> char" where
  "toupper c = (if 97 \<le> (of_char c :: nat) \<and> (of_char c :: nat) \<le> 122
                then char_of ((of_char c :: nat) - 32) else c)"

text \<open>
  \<^verbatim>\<open>atoi\<close> of the C library: leading white space, an optional sign, then decimal
  digits up to the first other character. An \<^verbatim>\<open>int\<close> of the program has 16 bits, and
  a number beyond them comes back reduced modulo \<open>2^16\<close> into \<open>-32768 .. 32767\<close>.
\<close>

definition int16 :: "int \<Rightarrow> int" where
  "int16 n = (n + 32768) mod 65536 - 32768"

fun atoi_digits :: "int \<Rightarrow> string \<Rightarrow> int" where
  "atoi_digits acc [] = acc"
| "atoi_digits acc (c # cs) =
     (if isdigit c then atoi_digits (acc * 10 + (of_char c - 48)) cs else acc)"

definition atoi :: "string \<Rightarrow> int" where
  "atoi s =
     int16 (case dropWhile isspace s of
              [] \<Rightarrow> 0
            | c # cs \<Rightarrow>
                if c = CHR ''-'' then - atoi_digits 0 cs
                else if c = CHR ''+'' then atoi_digits 0 cs
                else atoi_digits 0 (c # cs))"

subsection \<open>The program state\<close>

text \<open>
  What the program writes to the console: text through \<^verbatim>\<open>printf\<close>/\<^verbatim>\<open>puts\<close>, the
  \<^verbatim>\<open>conio\<close> calls of the fullscreen editor, and bytes stored directly into video
  memory (segment, offset, byte).
\<close>

datatype out = Out string | Clrscr | Gotoxy int int | Textattr int | Poke int int int

text \<open>
  \<open>lines\<close> is the array \<^verbatim>\<open>char *lines[MAX_LINES]\<close>: a slot holds \<open>None\<close> for a null
  pointer and \<open>Some s\<close> for a buffer with the C string \<open>s\<close>. Only the indices
  \<open>0 .. MAX_LINES - 1\<close> exist in the program. Buffers are modelled by their contents.

  \<open>heap\<close> lists the outcomes of the coming calls of \<^verbatim>\<open>malloc\<close> (\<open>False\<close>: the call
  returns a null pointer); past its end every call succeeds. \<open>stdin\<close> is the unread
  rest of standard input, \<open>keys\<close> the values the coming calls of \<^verbatim>\<open>getch\<close> return,
  \<open>files\<close> the contents of the files that can be opened for reading, \<open>unwritable\<close>
  the names \<^verbatim>\<open>fopen(name, "wt")\<close> fails on, \<open>wherex\<close> the cursor column \<^verbatim>\<open>conio\<close>
  reports after the console output so far, and \<open>bios_video_mode\<close> the byte at
  \<^verbatim>\<open>0040:0049\<close>.
\<close>

record world =
  lines :: "int \<Rightarrow> string option"
  line_count :: int
  current_file :: string
  last_a :: int
  last_b :: int
  cursor_row :: int
  cursor_col :: int
  top_line :: int
  video_segment :: int
  heap :: "bool list"
  stdin :: string
  console :: "out list"
  keys :: "int list"
  files :: "string \<Rightarrow> string option"
  unwritable :: "string set"
  wherex :: "out list \<Rightarrow> int"
  bios_video_mode :: int

text \<open>The state at program start, in an environment with no input and no files.\<close>

definition world0 :: world where
  "world0 = \<lparr> lines = (\<lambda>_. None), line_count = 0, current_file = [], last_a = 1, last_b = 0,
      cursor_row = 0, cursor_col = 0, top_line = 0, video_segment = 0xB800,
      heap = [], stdin = [], console = [], keys = [], files = (\<lambda>_. None),
      unwritable = {}, wherex = (\<lambda>_. 1), bios_video_mode = 3 \<rparr>"

subsection \<open>Range resolver\<close>

definition to_range_defaults :: "int \<Rightarrow> int \<Rightarrow> world \<Rightarrow> int \<times> int" where
  "to_range_defaults a b w =
     (let a1 = (if a < 1 then 1 else a);
          b1 = (if b < 1 \<or> b > line_count w then line_count w else b)
      in if a1 > b1 \<and> line_count w > 0 then (b1, a1) else (a1, b1))"

text \<open>\<open>parse_range\<close> returns \<open>None\<close> where the C function returns 0 and leaves \<open>a\<close>, \<open>b\<close> alone.\<close>

definition parse_range :: "string \<Rightarrow> world \<Rightarrow> (int \<times> int) option" where
  "parse_range p w =
     (let c = dropWhile isspace p in
      case c of
        [] \<Rightarrow> Some (1, line_count w)
      | ch # c1 \<Rightarrow>
          if ch = CHR '','' then
            (let y = atoi c1 in Some (1, if y > 0 then y else line_count w))
          else if isdigit ch then
            (let x = atoi c;
                 c2 = dropWhile isspace (dropWhile isdigit c);
                 y = (case c2 of
                        [] \<Rightarrow> x
                      | d # c3 \<Rightarrow>
                          if d = CHR '','' then
                            (let c4 = dropWhile isspace c3
                             in if c4 \<noteq> [] then atoi c4 else line_count w)
                          else x)
             in Some (if x > 0 then x else 1, if y > 0 then y else line_count w))
          else None)"

subsection \<open>Allocation, strings and streams\<close>

text \<open>
  \<^verbatim>\<open>malloc\<close> takes its outcome from \<open>heap\<close>. \<^verbatim>\<open>free\<close> has no counterpart: buffers
  are values, and a freed pointer is only ever overwritten or set to null afterwards.
\<close>

definition malloc :: "world \<Rightarrow> bool \<times> world" where
  "malloc w = (case heap w of [] \<Rightarrow> (True, w) | b # bs \<Rightarrow> (b, w\<lparr>heap := bs\<rparr>))"

definition allocs_succeed :: "world \<Rightarrow> bool" where
  "allocs_succeed w = list_all (\<lambda>b. b) (heap w)"

definition xstrdup :: "string \<Rightarrow> world \<Rightarrow> string option \<times> world" where
  "xstrdup s w = (case malloc w of (True, w1) \<Rightarrow> (Some s, w1) | (False, w1) \<Rightarrow> (None, w1))"

text \<open>
  \<^verbatim>\<open>fgets(buf, n, f)\<close> on the unread rest of a stream: \<open>None\<close> at end of input,
  otherwise at most \<open>n - 1\<close> characters up to and including the first line feed,
  and the rest of the stream. The buffer is then read as a C string, which ends at
  its first NUL.
\<close>

fun fgets_chunk :: "nat \<Rightarrow> string \<Rightarrow> string" where
  "fgets_chunk n [] = []"
| "fgets_chunk n (c # cs) =
     (if n = 0 then [] else if c = LF then [c] else c # fgets_chunk (n - 1) cs)"

definition fgets :: "nat \<Rightarrow> string \<Rightarrow> (string \<times> string) option" where
  "fgets n inp =
     (if inp = [] then None
      else let chunk = fgets_chunk (n - 1) inp
           in Some (takeWhile (\<lambda>c. c \<noteq> NUL) chunk, drop (length chunk) inp))"

lemma fgets_shorter:
  assumes "fgets n inp = Some (buf, rest)" and "1 < n"
  shows "length rest < length inp"
proof -
  from assms(1) have ne: "inp \<noteq> []" and r: "rest = drop (length (fgets_chunk (n - 1) inp)) inp"
    by (auto simp: fgets_def Let_def split: if_splits)
  from ne assms(2) have "fgets_chunk (n - 1) inp \<noteq> []" by (cases inp) auto
  with ne r show ?thesis by simp
qed

definition chomp :: "string \<Rightarrow> string" where
  "chomp s =
     (let s1 = (if s \<noteq> [] \<and> (last s = LF \<or> last s = CR) then butlast s else s)
      in if s1 \<noteq> [] \<and> last s1 = CR then butlast s1 else s1)"

text \<open>\<^verbatim>\<open>strstr\<close>: the offset of the first occurrence, \<open>None\<close> for a null result.\<close>

fun strstr :: "string \<Rightarrow> string \<Rightarrow> nat option" where
  "strstr [] p = (if p = [] then Some 0 else None)"
| "strstr (c # cs) p =
     (if take (length p) (c # cs) = p then Some 0 else map_option Suc (strstr cs p))"

fun strcasestr_pos_from :: "nat \<Rightarrow> string \<Rightarrow> string \<Rightarrow> int" where
  "strcasestr_pos_from i [] needle = (if needle = [] then int i else - 1)"
| "strcasestr_pos_from i (c # cs) needle =
     (if length needle \<le> length (c # cs) then
        (if map tolower (take (length needle) (c # cs)) = map tolower needle then int i
         else strcasestr_pos_from (i + 1) cs needle)
      else - 1)"

definition strcasestr_pos :: "string \<Rightarrow> string \<Rightarrow> int" where
  "strcasestr_pos hay needle = (if length needle = 0 then 0 else strcasestr_pos_from 0 hay needle)"

text \<open>Output: each call of \<^verbatim>\<open>printf\<close> or \<^verbatim>\<open>puts\<close> appends one item to the console.\<close>

definition printf :: "string \<Rightarrow> world \<Rightarrow> world" where
  "printf s w = w\<lparr>console := console w @ [Out s]\<rparr>"

definition puts :: "string \<Rightarrow> world \<Rightarrow> world" where
  "puts s w = w\<lparr>console := console w @ [Out (s @ [LF])]\<rparr>"

definition conio :: "out \<Rightarrow> world \<Rightarrow> world" where
  "conio x w = w\<lparr>console := console w @ [x]\<rparr>"

fun digits :: "nat \<Rightarrow> string" where
  "digits n = (if n < 10 then [char_of (48 + n)] else digits (n div 10) @ [char_of (48 + n mod 10)])"

declare digits.simps [simp del]

text \<open>The conversions \<^verbatim>\<open>%d\<close> and \<^verbatim>\<open>%05d\<close>.\<close>

definition fmt_d :: "int \<Rightarrow> string" where
  "fmt_d i = (if i < 0 then CHR ''-'' # digits (nat (- i)) else digits (nat i))"

definition fmt_05d :: "int \<Rightarrow> string" where
  "fmt_05d i =
     (let sign = (if i < 0 then ''-'' else []); d = digits (nat \<bar>i\<bar>)
      in sign @ replicate (5 - length sign - length d) (CHR ''0'') @ d)"

text \<open>A null line is printed and written as the empty string.\<close>

definition str_or_empty :: "string option \<Rightarrow> string" where
  "str_or_empty p = (case p of None \<Rightarrow> [] | Some s \<Rightarrow> s)"

subsection \<open>Line store\<close>

definition free_line :: "int \<Rightarrow> world \<Rightarrow> world" where
  "free_line idx w =
     (if idx \<ge> 0 \<and> idx < line_count w \<and> lines w idx \<noteq> None
      then w\<lparr>lines := (lines w)(idx := None)\<rparr> else w)"

text \<open>The loop \<^verbatim>\<open>for (i = lo; i <= hi; i++) free_line(i)\<close>.\<close>

function free_lines :: "int \<Rightarrow> int \<Rightarrow> world \<Rightarrow> world" where
  "free_lines i hi w = (if i \<le> hi then free_lines (i + 1) hi (free_line i w) else w)"
  by pat_completeness auto
termination
  by (relation "measure (\<lambda>(i, hi, w). nat (hi + 1 - i))") auto

declare free_lines.simps [simp del]

function make_room_loop ::
  "int \<Rightarrow> int \<Rightarrow> int \<Rightarrow> (int \<Rightarrow> string option) \<Rightarrow> (int \<Rightarrow> string option)" where
  "make_room_loop i pos count ls =
     (if i \<ge> pos then make_room_loop (i - 1) pos count (ls(i + count := ls i)) else ls)"
  by pat_completeness auto
termination
  by (relation "measure (\<lambda>(i, pos, count, ls). nat (i + 1 - pos))") auto

declare make_room_loop.simps [simp del]

text \<open>\<open>make_room\<close> returns \<open>True\<close> for the C result 1 and \<open>False\<close> for 0.\<close>

definition make_room :: "int \<Rightarrow> int \<Rightarrow> world \<Rightarrow> bool \<times> world" where
  "make_room pos count w =
     (if count \<le> 0 then (True, w)
      else if line_count w + count > MAX_LINES then (False, w)
      else (True, w\<lparr>lines := make_room_loop (line_count w - 1) pos count (lines w),
                      line_count := line_count w + count\<rparr>))"

function close_gap_loop ::
  "int \<Rightarrow> int \<Rightarrow> int \<Rightarrow> (int \<Rightarrow> string option) \<Rightarrow> (int \<Rightarrow> string option)" where
  "close_gap_loop i count lc ls =
     (if i + count < lc then close_gap_loop (i + 1) count lc (ls(i := ls (i + count))) else ls)"
  by pat_completeness auto
termination
  by (relation "measure (\<lambda>(i, count, lc, ls). nat (lc - (i + count)))") auto

declare close_gap_loop.simps [simp del]

definition close_gap :: "int \<Rightarrow> int \<Rightarrow> world \<Rightarrow> world" where
  "close_gap start count w =
     w\<lparr>lines := close_gap_loop start count (line_count w) (lines w),
       line_count := line_count w - count\<rparr>"

subsection \<open>Substitution engine\<close>

text \<open>
  \<open>replace_in_line\<close> takes the contents of \<^verbatim>\<open>*s_ptr\<close> and returns the count, the new
  contents and the state (only \<open>heap\<close> changes). \<open>prefix\<close>, \<open>sn\<close> and \<open>suffix\<close> are
  lengths of strings the caller holds in buffers of \<open>LINE_LEN\<close> bytes, so their sum
  is computed without wrap-around.
\<close>

function replace_loop ::
  "string \<Rightarrow> string \<Rightarrow> string \<Rightarrow> bool \<Rightarrow> int \<Rightarrow> int \<Rightarrow> world \<Rightarrow> int \<times> string \<times> world" where
  "replace_loop s oldp newp global made limit w =
     (case strstr s oldp of
        None \<Rightarrow> (made, s, w)
      | Some prefix \<Rightarrow>
          (let so = length oldp; sn = length newp; suffix = length s - (prefix + so) in
           if prefix + sn + suffix + 1 \<ge> LINE_LEN then (made, s, w)
           else case malloc w of
                  (False, w1) \<Rightarrow> (made, s, w1)
                | (True, w1) \<Rightarrow>
                    (let buf = take prefix s @ newp @ drop (prefix + so) s in
                     if \<not> global then (made + 1, buf, w1)
                     else if limit - 1 \<le> 0 then (made + 1, buf, w1)
                     else replace_loop buf oldp newp global (made + 1) (limit - 1) w1)))"
  by pat_completeness auto
termination
  by (relation "measure (\<lambda>(s, oldp, newp, global, made, limit, w). nat limit)") auto

declare replace_loop.simps [simp del]

definition replace_in_line ::
  "string \<Rightarrow> string \<Rightarrow> string \<Rightarrow> bool \<Rightarrow> world \<Rightarrow> int \<times> string \<times> world" where
  "replace_in_line s oldp newp global w =
     (if length oldp = 0 then (0, s, w) else replace_loop s oldp newp global 0 1024 w)"

text \<open>
  For stating what the engine computes: one substitution at offset \<open>prefix\<close>, and
  \<open>k\<close> substitutions in a row, each at the first occurrence in the line as it then
  stands (\<open>None\<close> when there are fewer than \<open>k\<close> occurrences to replace).
\<close>

definition subst_at :: "string \<Rightarrow> nat \<Rightarrow> string \<Rightarrow> string \<Rightarrow> string" where
  "subst_at s prefix oldp newp = take prefix s @ newp @ drop (prefix + length oldp) s"

fun subst_n :: "nat \<Rightarrow> string \<Rightarrow> string \<Rightarrow> string \<Rightarrow> string option" where
  "subst_n 0 s oldp newp = Some s"
| "subst_n (Suc k) s oldp newp =
     (case strstr s oldp of
        None \<Rightarrow> None
      | Some p \<Rightarrow> subst_n k (subst_at s p oldp newp) oldp newp)"

subsection \<open>File operations\<close>

text \<open>
  The read loop of \<open>load_file\<close> over the unread rest of the file. Its result is
  \<open>True\<close> when the end of the file was reached and \<open>False\<close> when the function
  returned 0 from inside the loop.
\<close>

function load_loop :: "string \<Rightarrow> world \<Rightarrow> bool \<times> world" where
  "load_loop f w =
     (case fgets LINE_LEN f of
        None \<Rightarrow> (True, w)
      | Some (buf, rest) \<Rightarrow>
          (case xstrdup (chomp buf) w of
             (p, w1) \<Rightarrow>
               (let w2 = w1\<lparr>lines := (lines w1)(line_count w1 := p)\<rparr> in
                if p = None then (False, w2)
                else (let w3 = w2\<lparr>line_count := line_count w2 + 1\<rparr> in
                      if line_count w3 \<ge> MAX_LINES then (False, w3)
                      else load_loop rest w3))))"
  by pat_completeness auto
termination
  by (relation "measure (\<lambda>(f, w). length f)")
     (auto simp: LINE_LEN_def dest!: fgets_shorter)

declare load_loop.simps [simp del]

definition load_file :: "string \<Rightarrow> world \<Rightarrow> bool \<times> world" where
  "load_file name w =
     (case files w name of
        None \<Rightarrow> (False, w)
      | Some f \<Rightarrow>
          (let w1 = free_lines 0 (line_count w - 1) w;
               w2 = w1\<lparr>line_count := 0\<rparr>
           in case load_loop f w2 of
                (False, w3) \<Rightarrow> (False, w3)
              | (True, w3) \<Rightarrow>
                  (True, w3\<lparr>current_file := take 127 name, last_a := 1,
                            last_b := line_count w3\<rparr>)))"

definition write_file :: "string \<Rightarrow> world \<Rightarrow> bool \<times> world" where
  "write_file name w =
     (if name \<in> unwritable w then (False, w)
      else (True, w\<lparr>files := (files w)(name \<mapsto>
                          concat (map (\<lambda>i. str_or_empty (lines w i) @ [LF]) [0..line_count w - 1])),
                      current_file := take 127 name\<rparr>))"

subsection \<open>Line commands\<close>

text \<open>
  The commands that take a range count an \<^verbatim>\<open>int\<close> from \<open>a\<close> up to \<open>b\<close> and test each
  index against the document. The model folds over the integers from \<open>a\<close> to \<open>b\<close>,
  and so does not show what the C loop does for \<open>b = 32767\<close>, which its counter
  cannot pass.
\<close>

definition list_step :: "int \<Rightarrow> world \<Rightarrow> world" where
  "list_step i w =
     (if i \<ge> 1 \<and> i \<le> line_count w
      then printf (fmt_05d (i - 1) @ '': '' @ str_or_empty (lines w (i - 1)) @ [LF]) w
      else w)"

definition cmd_list :: "int \<Rightarrow> int \<Rightarrow> world \<Rightarrow> world" where
  "cmd_list a b w =
     (case to_range_defaults a b w of
        (a1, b1) \<Rightarrow>
          if line_count w = 0 then puts ''(empty)'' w
          else (fold list_step [a1..b1] w)\<lparr>last_a := a1, last_b := b1\<rparr>)"

definition cmd_delete :: "int \<Rightarrow> int \<Rightarrow> world \<Rightarrow> world" where
  "cmd_delete a b w =
     (case to_range_defaults a b w of
        (a1, b1) \<Rightarrow>
          (let a2 = (if a1 < 1 then 1 else a1);
               b2 = (if b1 > line_count w then line_count w else b1)
           in if line_count w = 0 \<or> a2 > b2 then w
              else (let w1 = free_lines (a2 - 1) (b2 - 1) w;
                        w2 = close_gap (a2 - 1) (b2 - a2 + 1) w1
                    in w2\<lparr>last_a := a2,
                          last_b := (if a2 \<le> line_count w2 then a2 else line_count w2)\<rparr>)))"

text \<open>
  The input loop of \<open>cmd_insert\<close>; it returns the final \<open>pos\<close>. Every turn that
  goes round again has taken a line from \<open>stdin\<close>.
\<close>

function insert_loop :: "int \<Rightarrow> world \<Rightarrow> int \<times> world" where
  "insert_loop pos w =
     (let w0 = printf (fmt_05d (pos + 1) @ '': '') w in
      case fgets LINE_LEN (stdin w0) of
        None \<Rightarrow> (pos, w0)
      | Some (buf, rest) \<Rightarrow>
          (let w1 = w0\<lparr>stdin := rest\<rparr> in
           if chomp buf = ''.'' then (pos, w1)
           else case make_room pos 1 w1 of
                  (False, w2) \<Rightarrow> (pos, puts ''! out of space'' w2)
                | (True, w2) \<Rightarrow>
                    (case xstrdup (chomp buf) w2 of
                       (p, w3) \<Rightarrow>
                         (let w4 = w3\<lparr>lines := (lines w3)(pos := p)\<rparr> in
                          if p = None then (pos, puts ''! alloc failed'' w4)
                          else insert_loop (pos + 1) w4))))"
  by pat_completeness auto
termination
  by (relation "measure (\<lambda>(pos, w). length (stdin w))")
     (auto simp: LINE_LEN_def printf_def make_room_def xstrdup_def malloc_def
           split: if_splits list.splits bool.splits dest!: fgets_shorter)

declare insert_loop.simps [simp del]

definition cmd_insert :: "int \<Rightarrow> world \<Rightarrow> world" where
  "cmd_insert n w =
     (let n1 = (if n < 1 \<or> n > line_count w + 1 then line_count w + 1 else n);
          w1 = printf (''-- Insert at  Line '' @ fmt_05d (n1 - 1) @ ''  --'' @ [LF]) w
      in case insert_loop (n1 - 1) w1 of
           (pos, w2) \<Rightarrow> w2\<lparr>last_a := n1, last_b := pos\<rparr>)"

definition cmd_edit :: "int \<Rightarrow> world \<Rightarrow> world" where
  "cmd_edit n w =
     (if n < 1 \<or> n > line_count w then puts ''! bad line'' w
      else (let w1 = printf (fmt_05d (n - 1) @ '': '' @ str_or_empty (lines w (n - 1)) @ [LF]) w;
                w2 = printf (fmt_05d n @ '': '') w1
            in case fgets LINE_LEN (stdin w2) of
                 None \<Rightarrow> w2
               | Some (buf, rest) \<Rightarrow>
                   (let w3 = free_line (n - 1) (w2\<lparr>stdin := rest\<rparr>) in
                    case xstrdup (chomp buf) w3 of
                      (p, w4) \<Rightarrow>
                        (let w5 = w4\<lparr>lines := (lines w4)(n - 1 := p)\<rparr>;
                             w6 = (if p = None then puts ''! alloc failed'' w5 else w5)
                         in w6\<lparr>last_a := n, last_b := n\<rparr>))))"

text \<open>
  \<open>parse_between\<close> returns the text between the delimiters, cut to \<open>outsz - 1\<close>
  characters, and the rest of the input after the closing delimiter; \<open>None\<close> for
  a null result.
\<close>

definition parse_between :: "string \<Rightarrow> char \<Rightarrow> nat \<Rightarrow> (string \<times> string) option" where
  "parse_between p delim outsz =
     (case p of
        [] \<Rightarrow> None
      | c # cs \<Rightarrow>
          if c \<noteq> delim then None
          else (case dropWhile (\<lambda>x. x \<noteq> delim) cs of
                  [] \<Rightarrow> None
                | d # rest \<Rightarrow> Some (take (outsz - 1) (takeWhile (\<lambda>x. x \<noteq> delim) cs), rest)))"

definition replace_step :: "string \<Rightarrow> string \<Rightarrow> bool \<Rightarrow> int \<Rightarrow> int \<times> world \<Rightarrow> int \<times> world" where
  "replace_step oldp newp global i tw =
     (case tw of
        (tot, w) \<Rightarrow>
          if i \<ge> 1 \<and> i \<le> line_count w then
            (case lines w (i - 1) of
               None \<Rightarrow> (tot, w)
             | Some s \<Rightarrow>
                 (case replace_in_line s oldp newp global w of
                    (made, s1, w1) \<Rightarrow> (tot + made, w1\<lparr>lines := (lines w1)(i - 1 \<mapsto> s1)\<rparr>)))
          else (tot, w))"

definition cmd_replace :: "int \<Rightarrow> int \<Rightarrow> string \<Rightarrow> world \<Rightarrow> world" where
  "cmd_replace a b spec w =
     (case parse_between (dropWhile isspace spec) (CHR ''/'') LINE_LEN of
        None \<Rightarrow> puts ''! syntax: R a,b /old/new/[g]'' w
      | Some (oldp, p1) \<Rightarrow>
          (case parse_between (dropWhile isspace p1) (CHR ''/'') LINE_LEN of
             None \<Rightarrow> puts ''! syntax: R a,b /old/new/[g]'' w
           | Some (newp, p2) \<Rightarrow>
               (let p3 = dropWhile isspace p2;
                    global = (p3 \<noteq> [] \<and> (hd p3 = CHR ''g'' \<or> hd p3 = CHR ''G''))
                in case to_range_defaults a b w of
                     (a1, b1) \<Rightarrow>
                       (case fold (replace_step oldp newp global) [a1..b1] (0, w) of
                          (tot, w1) \<Rightarrow>
                            (printf (''Replaced '' @ fmt_d tot @ '' occurrence(s).'' @ [LF]) w1)
                              \<lparr>last_a := a1, last_b := b1\<rparr>))))"

definition search_step :: "string \<Rightarrow> int \<Rightarrow> int \<times> world \<Rightarrow> int \<times> world" where
  "search_step pat i hw =
     (case hw of
        (hits, w) \<Rightarrow>
          if i \<ge> 1 \<and> i \<le> line_count w then
            (case lines w (i - 1) of
               None \<Rightarrow> (hits, w)
             | Some s \<Rightarrow>
                 if strcasestr_pos s pat \<ge> 0
                 then (hits + 1, printf (fmt_05d (i - 1) @ '': '' @ s @ [LF]) w)
                 else (hits, w))
          else (hits, w))"

definition search_range :: "int \<Rightarrow> int \<Rightarrow> string \<Rightarrow> world \<Rightarrow> world" where
  "search_range a b pat w =
     (case to_range_defaults a b w of
        (a1, b1) \<Rightarrow>
          (case fold (search_step pat) [a1..b1] (0, w) of
             (hits, w1) \<Rightarrow>
               (printf (''-- '' @ fmt_d hits @ '' match(es)'' @ [LF]) w1)
                 \<lparr>last_a := a1, last_b := b1\<rparr>))"

definition cmd_search :: "int \<Rightarrow> int \<Rightarrow> string \<Rightarrow> world \<Rightarrow> world" where
  "cmd_search a b spec w =
     (let p = dropWhile isspace spec in
      if p \<noteq> [] \<and> hd p = CHR ''/'' then
        (case parse_between p (CHR ''/'') LINE_LEN of
           None \<Rightarrow> puts ''! syntax: S a,b /text/'' w
         | Some (pat, rest) \<Rightarrow> search_range a b pat w)
      else search_range a b (take (LINE_LEN - 1) p) w)"

subsection \<open>Fullscreen editor: editing primitives\<close>

function ensure_line_exists :: "int \<Rightarrow> world \<Rightarrow> world" where
  "ensure_line_exists line_idx w =
     (if line_count w \<le> line_idx then
        (if line_count w \<ge> MAX_LINES then w
         else case xstrdup [] w of
                (p, w1) \<Rightarrow>
                  (let w2 = w1\<lparr>lines := (lines w1)(line_count w1 := p)\<rparr> in
                   if p = None then w2
                   else ensure_line_exists line_idx (w2\<lparr>line_count := line_count w2 + 1\<rparr>)))
      else w)"
  by pat_completeness auto
termination
  by (relation "measure (\<lambda>(line_idx, w). nat (line_idx + 1 - line_count w))")
     (auto simp: xstrdup_def malloc_def split: list.splits bool.splits)

declare ensure_line_exists.simps [simp del]

text \<open>
  The editor reads \<^verbatim>\<open>lines[i]\<close> and takes its length without a test. For an index
  outside the array or a null slot the C code has no defined behaviour; \<open>line_at\<close>
  is \<open>None\<close> there, and the functions below return \<open>None\<close> in turn. The same holds
  where a copy would start before a buffer or run past \<open>LINE_LEN\<close> bytes.
\<close>

definition line_at :: "world \<Rightarrow> int \<Rightarrow> string option" where
  "line_at w i = (if 0 \<le> i \<and> i < MAX_LINES then lines w i else None)"

text \<open>
  \<^verbatim>\<open>cursor_col > strlen(...)\<close> compares an \<open>int\<close> with an unsigned length: a negative
  \<open>cursor_col\<close> counts as large.
\<close>

definition col_beyond :: "int \<Rightarrow> string \<Rightarrow> bool" where
  "col_beyond col line = (col < 0 \<or> col > int (length line))"

definition insert_char :: "char \<Rightarrow> world \<Rightarrow> world option" where
  "insert_char c w =
     (let line_idx = cursor_row w;
          w1 = ensure_line_exists line_idx w
      in case line_at w1 line_idx of
           None \<Rightarrow> None
         | Some line \<Rightarrow>
             (let len = int (length line);
                  w2 = (if cursor_col w1 > len then w1\<lparr>cursor_col := len\<rparr> else w1)
              in if len \<ge> int LINE_LEN - 1 then Some w2
                 else case malloc w2 of
                        (False, w3) \<Rightarrow> Some w3
                      | (True, w3) \<Rightarrow>
                          if cursor_col w3 < 0 then None
                          else Some (w3\<lparr>lines := (lines w3)(line_idx \<mapsto>
                                             take (nat (cursor_col w3)) line @ [c]
                                               @ drop (nat (cursor_col w3)) line),
                                         cursor_col := cursor_col w3 + 1\<rparr>)))"

definition delete_char :: "world \<Rightarrow> world option" where
  "delete_char w =
     (let line_idx = cursor_row w in
      if line_idx \<ge> line_count w then Some w
      else case line_at w line_idx of
             None \<Rightarrow> None
           | Some line \<Rightarrow>
               (let len = int (length line) in
                if cursor_col w \<ge> len then
                  (if line_idx + 1 < line_count w then
                     (case line_at w (line_idx + 1) of
                        None \<Rightarrow> None
                      | Some next_line \<Rightarrow>
                          if len + int (length next_line) < int LINE_LEN then
                            (case malloc w of
                               (False, w1) \<Rightarrow> Some w1
                             | (True, w1) \<Rightarrow>
                                 Some (close_gap (line_idx + 1) 1
                                        (free_line (line_idx + 1)
                                          (w1\<lparr>lines := (lines w1)(line_idx \<mapsto> line @ next_line)\<rparr>))))
                          else Some w)
                   else Some w)
                else if cursor_col w < 0 then None
                else Some (w\<lparr>lines := (lines w)(line_idx \<mapsto>
                                  take (nat (cursor_col w)) line
                                    @ drop (nat (cursor_col w) + 1) line)\<rparr>)))"

definition backspace_char :: "world \<Rightarrow> world option" where
  "backspace_char w =
     (if cursor_col w > 0 then delete_char (w\<lparr>cursor_col := cursor_col w - 1\<rparr>)
      else if cursor_row w > 0 then
        (case line_at w (cursor_row w - 1) of
           None \<Rightarrow> None
         | Some line \<Rightarrow>
             delete_char (w\<lparr>cursor_row := cursor_row w - 1, cursor_col := int (length line)\<rparr>))
      else Some w)"

text \<open>
  Lines are modelled by their contents. When \<open>make_room\<close> has opened the slot and
  the allocation for the new line fails, \<open>insert_newline\<close> returns with the slot as
  the shift left it: when a line followed the cursor row, the C slot holds the
  pointer that the slot after it holds too, and the model has the contents of
  that line in both. What later edits in place
  and frees do to a buffer that two slots share is outside the model.
\<close>

definition insert_newline :: "world \<Rightarrow> world option" where
  "insert_newline w =
     (let line_idx = cursor_row w;
          w1 = ensure_line_exists line_idx w
      in case line_at w1 line_idx of
           None \<Rightarrow> None
         | Some line \<Rightarrow>
             (let len = int (length line);
                  w2 = (if cursor_col w1 > len then w1\<lparr>cursor_col := len\<rparr> else w1)
              in if line_count w2 \<ge> MAX_LINES then Some w2
                 else case make_room (line_idx + 1) 1 w2 of
                        (False, w3) \<Rightarrow> Some w3
                      | (True, w3) \<Rightarrow>
                          (case malloc w3 of
                             (False, w4) \<Rightarrow> Some w4
                           | (True, w4) \<Rightarrow>
                               if cursor_col w4 < 0 \<or> len - cursor_col w4 + 1 > int LINE_LEN
                                  \<or> line_idx + 1 \<ge> MAX_LINES
                               then None
                               else Some (w4\<lparr>lines := (lines w4)
                                              (line_idx \<mapsto> take (nat (cursor_col w4)) line,
                                               line_idx + 1 \<mapsto> drop (nat (cursor_col w4)) line),
                                            cursor_row := line_idx + 1, cursor_col := 0\<rparr>))))"

subsection \<open>Fullscreen editor: display\<close>

fun strcasecmp :: "string \<Rightarrow> string \<Rightarrow> int" where
  "strcasecmp (c1 # s1) (c2 # s2) =
     (if tolower c1 \<noteq> tolower c2 then of_char (tolower c1) - of_char (tolower c2)
      else strcasecmp s1 s2)"
| "strcasecmp [] (c2 # s2) = - of_char (tolower c2)"
| "strcasecmp (c1 # s1) [] = of_char (tolower c1)"
| "strcasecmp [] [] = 0"

definition ext_is :: "string \<Rightarrow> string list \<Rightarrow> bool" where
  "ext_is ext names = list_ex (\<lambda>n. strcasecmp ext n = 0) names"

definition get_file_type :: "string \<Rightarrow> string" where
  "get_file_type filename =
     (if filename = [] \<or> CHR ''.'' \<notin> set filename then []
      else (let ext = rev (takeWhile (\<lambda>c. c \<noteq> CHR ''.'') (rev filename)) in
        if ext_is ext [''FOR'', ''FTN'', ''F77'', ''F'', ''F90'', ''F95''] then ''FORTRAN source file''
        else if ext_is ext [''ASM'', ''S''] then ''ASSEMBLER source file''
        else if ext_is ext [''SUB'', ''SBR''] then ''SUBROUTINE source file''
        else if ext_is ext [''C''] then ''C source file''
        else if ext_is ext [''H''] then ''C header file''
        else if ext_is ext [''CPP'', ''CXX'', ''CC''] then ''C++ source file''
        else if ext_is ext [''HPP'', ''HXX''] then ''C++ header file''
        else if ext_is ext [''PAS''] then ''PASCAL source file''
        else if ext_is ext [''BAS''] then ''BASIC source file''
        else if ext_is ext [''COB'', ''CBL''] then ''COBOL source file''
        else if ext_is ext [''PLI'', ''PL1''] then ''PL/I source file''
        else if ext_is ext [''PLM''] then ''PL/M source file''
        else if ext_is ext [''ALG'', ''ALGOL''] then ''ALGOL source file''
        else if ext_is ext [''BAT''] then ''DOS batch file''
        else if ext_is ext [''CMD''] then ''Command script''
        else if ext_is ext [''TXT''] then ''Text file''
        else if ext_is ext [''DOC''] then ''Document file''
        else if ext_is ext [''MD''] then ''Markdown file''
        else if ext_is ext [''DAT''] then ''Data file''
        else if ext_is ext [''INI'', ''CFG''] then ''Configuration file''
        else if ext_is ext [''HEX''] then ''Intel HEX file''
        else if ext_is ext [''BIN''] then ''Binary file''
        else if ext_is ext [''COM''] then ''DOS executable''
        else if ext_is ext [''EXE''] then ''DOS executable''
        else if ext_is ext [''OBJ''] then ''Object file''
        else if ext_is ext [''LIB''] then ''Library file''
        else if ext_is ext [''MAK''] then ''Makefile''
        else []))"

text \<open>A loop body that can leave defined behaviour, run over a list of indices.\<close>

fun fold_opt :: "('a \<Rightarrow> 'b \<Rightarrow> 'b option) \<Rightarrow> 'a list \<Rightarrow> 'b \<Rightarrow> 'b option" where
  "fold_opt f [] s = Some s"
| "fold_opt f (x # xs) s = (case f x s of None \<Rightarrow> None | Some s1 \<Rightarrow> fold_opt f xs s1)"

definition gotoxy_cursor :: "world \<Rightarrow> world" where
  "gotoxy_cursor w = conio (Gotoxy (cursor_col w + 1) (cursor_row w - top_line w + 1)) w"

definition draw_row :: "int \<Rightarrow> world \<Rightarrow> world option" where
  "draw_row row w =
     (let line_idx = top_line w + row;
          w1 = conio (Gotoxy 1 (row + 1)) w
      in if line_idx < line_count w then
           (case line_at w line_idx of
              None \<Rightarrow> None
            | Some line \<Rightarrow> Some (printf (take (nat SCREEN_COLS) line) w1))
         else Some (printf ''~'' w1))"

definition name_or_none :: "world \<Rightarrow> string" where
  "name_or_none w = (if current_file w \<noteq> [] then current_file w else ''(none)'')"

definition draw_status :: "world \<Rightarrow> world" where
  "draw_status w =
     (let w1 = conio (Textattr 0x70) (conio (Gotoxy 1 SCREEN_ROWS) w);
          w2 = printf ('' F1=Help F2=Save ESC=Exit | Line '' @ fmt_d (cursor_row w + 1) @ ''/''
                        @ fmt_d (line_count w) @ '' Col '' @ fmt_d (cursor_col w + 1) @ '' | ''
                        @ name_or_none w) w1;
          file_type = get_file_type (current_file w);
          pos = SCREEN_COLS - int (length file_type);
          w3 = (if file_type \<noteq> [] \<and> pos > wherex w2 (console w2)
                then printf file_type (conio (Gotoxy pos SCREEN_ROWS) w2) else w2);
          w4 = fold (\<lambda>x. printf '' '') [wherex w3 (console w3)..SCREEN_COLS - 1] w3
      in conio (Textattr 0x07) w4)"

definition draw_screen :: "world \<Rightarrow> world option" where
  "draw_screen w =
     (case fold_opt draw_row [0..SCREEN_ROWS - 2] (conio Clrscr w) of
        None \<Rightarrow> None
      | Some w1 \<Rightarrow> Some (gotoxy_cursor (draw_status w1)))"

text \<open>Two bytes per screen cell are stored into video memory: the character and its attribute.\<close>

definition poke_cell :: "int \<Rightarrow> char \<Rightarrow> int \<Rightarrow> world \<Rightarrow> world" where
  "poke_cell offset c attr w =
     conio (Poke (video_segment w) (offset + 1) attr)
       (conio (Poke (video_segment w) offset (of_char c)) w)"

definition write_char_at_cursor :: "char \<Rightarrow> world \<Rightarrow> world" where
  "write_char_at_cursor c w =
     (let screen_y = cursor_row w - top_line w + 1;
          offset = ((screen_y - 1) * SCREEN_COLS + (cursor_col w - 1)) * 2
      in conio (Gotoxy (cursor_col w + 1) screen_y) (poke_cell offset c 0x07 w))"

definition draw_current_line :: "world \<Rightarrow> world option" where
  "draw_current_line w =
     (if cursor_row w \<ge> line_count w then Some w
      else case line_at w (cursor_row w) of
             None \<Rightarrow> None
           | Some line \<Rightarrow>
               (let screen_y = cursor_row w - top_line w + 1;
                    offset = ((screen_y - 1) * SCREEN_COLS) * 2;
                    shown = take (nat SCREEN_COLS) line;
                    cells = shown @ replicate (nat SCREEN_COLS - length shown) (CHR '' '');
                    w1 = fold (\<lambda>i. poke_cell (offset + i * 2) (cells ! nat i) 0x07)
                           [0..SCREEN_COLS - 1] w
                in Some (conio (Gotoxy (cursor_col w + 1) screen_y) w1)))"

text \<open>
  The status text is at most 53 characters for 16-bit numbers, so the buffer of
  \<open>SCREEN_COLS + 1\<close> bytes holds it; the model writes its first \<open>SCREEN_COLS\<close> cells.
\<close>

definition update_status_line :: "world \<Rightarrow> world" where
  "update_status_line w =
     (let status = '' F1=Help F2=Save F10=Exit | Ln '' @ fmt_d (cursor_row w + 1) @ ''/''
                     @ fmt_d (line_count w) @ '' Col '' @ fmt_d (cursor_col w + 1);
          cells = status @ replicate (nat SCREEN_COLS - length status) (CHR '' '');
          offset = ((SCREEN_ROWS - 1) * SCREEN_COLS) * 2
      in fold (\<lambda>i. poke_cell (offset + i * 2) (cells ! nat i) 0x70) [0..SCREEN_COLS - 1] w)"

definition detect_video_adapter :: "world \<Rightarrow> world" where
  "detect_video_adapter w =
     (if bios_video_mode w = 7 then w\<lparr>video_segment := 0xB000\<rparr>
      else w\<lparr>video_segment := 0xB800\<rparr>)"

definition help_screen_text :: "string list" where
  "help_screen_text =
     [''=================================================================\<newline>'',
      ''             LINED - FULLSCREEN EDITOR - HELP                    \<newline>'',
      ''=================================================================\<newline>\<newline>'',
      ''  NAVIGATION:\<newline>'',
      ''    Arrow Keys    - Move cursor\<newline>'',
      ''    Home          - Beginning of line\<newline>'',
      ''    End           - End of line\<newline>'',
      ''    PgUp/PgDn     - Scroll page up/down\<newline>\<newline>'',
      ''  EDITING:\<newline>'',
      ''    Type          - Insert characters\<newline>'',
      ''    Tab           - Insert 8 spaces\<newline>'',
      ''    Enter         - Insert new line\<newline>'',
      ''    Backspace     - Delete previous character\<newline>'',
      ''    Delete        - Delete current character\<newline>\<newline>'',
      ''  FILE OPERATIONS:\<newline>'',
      ''    F2            - Save file\<newline>'',
      ''    F10           - Exit to line mode\<newline>\<newline>'',
      ''=================================================================\<newline>'',
      ''\<newline>  Press any key to continue...'']"

text \<open>\<open>show_help_screen\<close> up to its call of \<^verbatim>\<open>getch\<close>, which the key loop models.\<close>

definition show_help_screen :: "world \<Rightarrow> world" where
  "show_help_screen w = fold printf help_screen_text (conio Clrscr w)"

subsection \<open>Fullscreen editor: the key loop\<close>

text \<open>
  One key is handled by \<open>extended_key\<close> (the second code of a two-byte key) or
  \<open>plain_key\<close>. The result is \<open>(running, need_full_redraw, state)\<close>, or \<open>None\<close>
  where the C code leaves defined behaviour.
\<close>

definition clamp_col :: "world \<Rightarrow> world option" where
  "clamp_col w =
     (case line_at w (cursor_row w) of
        None \<Rightarrow> None
      | Some line \<Rightarrow>
          Some (if col_beyond (cursor_col w) line then w\<lparr>cursor_col := int (length line)\<rparr> else w))"

definition clamp_col_goto :: "world \<Rightarrow> world option" where
  "clamp_col_goto w =
     (case line_at w (cursor_row w) of
        None \<Rightarrow> None
      | Some line \<Rightarrow>
          Some (if col_beyond (cursor_col w) line
                then gotoxy_cursor (w\<lparr>cursor_col := int (length line)\<rparr>) else w))"

definition scroll_down :: "world \<Rightarrow> bool \<times> world" where
  "scroll_down w =
     (if cursor_row w \<ge> top_line w + SCREEN_ROWS - 1
      then (True, w\<lparr>top_line := cursor_row w - SCREEN_ROWS + 2\<rparr>)
      else (False, gotoxy_cursor w))"

definition scroll_up :: "world \<Rightarrow> bool \<times> world" where
  "scroll_up w =
     (if cursor_row w < top_line w then (True, w\<lparr>top_line := cursor_row w\<rparr>)
      else (False, gotoxy_cursor w))"

definition extended_key :: "int \<Rightarrow> world \<Rightarrow> (bool \<times> bool \<times> world) option" where
  "extended_key ch w =
     (if ch = 72 then
        (if cursor_row w > 0 then
           (case scroll_up (w\<lparr>cursor_row := cursor_row w - 1\<rparr>) of
              (redraw, w1) \<Rightarrow> map_option (\<lambda>w2. (True, redraw, w2)) (clamp_col_goto w1))
         else Some (True, False, w))
      else if ch = 80 then
        (if cursor_row w < line_count w - 1 then
           (case scroll_down (w\<lparr>cursor_row := cursor_row w + 1\<rparr>) of
              (redraw, w1) \<Rightarrow> map_option (\<lambda>w2. (True, redraw, w2)) (clamp_col_goto w1))
         else Some (True, False, w))
      else if ch = 75 then
        (if cursor_col w > 0 then Some (True, False, gotoxy_cursor (w\<lparr>cursor_col := cursor_col w - 1\<rparr>))
         else if cursor_row w > 0 then
           (case line_at w (cursor_row w - 1) of
              None \<Rightarrow> None
            | Some line \<Rightarrow>
                (case scroll_up (w\<lparr>cursor_row := cursor_row w - 1, cursor_col := int (length line)\<rparr>) of
                   (redraw, w1) \<Rightarrow> Some (True, redraw, w1)))
         else Some (True, False, w))
      else if ch = 77 then
        (if cursor_row w < line_count w then
           (case line_at w (cursor_row w) of
              None \<Rightarrow> None
            | Some line \<Rightarrow>
                if cursor_col w < int (length line)
                then Some (True, False, gotoxy_cursor (w\<lparr>cursor_col := cursor_col w + 1\<rparr>))
                else if cursor_row w < line_count w - 1 then
                  (case scroll_down (w\<lparr>cursor_row := cursor_row w + 1, cursor_col := 0\<rparr>) of
                     (redraw, w1) \<Rightarrow> Some (True, redraw, w1))
                else Some (True, False, w))
         else Some (True, False, w))
      else if ch = 71 then Some (True, False, gotoxy_cursor (w\<lparr>cursor_col := 0\<rparr>))
      else if ch = 79 then
        (if cursor_row w < line_count w then
           (case line_at w (cursor_row w) of
              None \<Rightarrow> None
            | Some line \<Rightarrow> Some (True, False, gotoxy_cursor (w\<lparr>cursor_col := int (length line)\<rparr>)))
         else Some (True, False, w))
      else if ch = 73 then
        (let r = cursor_row w - (SCREEN_ROWS - 1);
             r1 = (if r < 0 then 0 else r)
         in map_option (\<lambda>w2. (True, True, w2)) (clamp_col (w\<lparr>cursor_row := r1, top_line := r1\<rparr>)))
      else if ch = 81 then
        (let r = cursor_row w + (SCREEN_ROWS - 1);
             r1 = (if r \<ge> line_count w then line_count w - 1 else r);
             r2 = (if r1 < 0 then 0 else r1)
         in map_option (\<lambda>w2. (True, True, w2)) (clamp_col (w\<lparr>cursor_row := r2, top_line := r2\<rparr>)))
      else if ch = 60 then
        (let w1 = (if current_file w \<noteq> [] then snd (write_file (current_file w) w) else w)
         in Some (True, False, update_status_line w1))
      else if ch = 68 then Some (False, False, w)
      else if ch = 83 then
        (case delete_char w of
           None \<Rightarrow> None
         | Some w1 \<Rightarrow> map_option (\<lambda>w2. (True, False, update_status_line w2)) (draw_current_line w1))
      else Some (True, False, w))"

definition plain_key :: "int \<Rightarrow> world \<Rightarrow> (bool \<times> bool \<times> world) option" where
  "plain_key ch w =
     (if ch = 13 then
        (case insert_newline w of
           None \<Rightarrow> None
         | Some w1 \<Rightarrow>
             Some (True, True,
                   if cursor_row w1 \<ge> top_line w1 + SCREEN_ROWS - 1
                   then w1\<lparr>top_line := cursor_row w1 - SCREEN_ROWS + 2\<rparr> else w1))
      else if ch = 9 then
        (case fold_opt (\<lambda>k. insert_char (CHR '' '')) [1..8] w of
           None \<Rightarrow> None
         | Some w1 \<Rightarrow> map_option (\<lambda>w2. (True, False, update_status_line w2)) (draw_current_line w1))
      else if ch = 8 then
        (case backspace_char w of
           None \<Rightarrow> None
         | Some w1 \<Rightarrow>
             if cursor_row w1 < top_line w1 then Some (True, True, w1\<lparr>top_line := cursor_row w1\<rparr>)
             else map_option (\<lambda>w2. (True, False, update_status_line w2)) (draw_current_line w1))
      else if ch = 27 then Some (False, False, w)
      else if ch \<ge> 32 \<and> ch < 127 then
        (case insert_char (char_of ch) w of
           None \<Rightarrow> None
         | Some w1 \<Rightarrow> Some (True, False, update_status_line (write_char_at_cursor (char_of ch) w1)))
      else Some (True, False, w))"

text \<open>
  The loop of \<open>cmd_fullscreen\<close> over the key codes that \<^verbatim>\<open>getch\<close> will return. It
  ends with \<open>(rest, True, state)\<close> when \<open>running\<close> became 0, and with
  \<open>([], False, state)\<close> when the codes are used up: the editor then waits in
  \<^verbatim>\<open>getch\<close>, in the state given. Code 59 (F1) shows the help screen, whose own
  \<^verbatim>\<open>getch\<close> takes the next code.
\<close>

fun visual_loop :: "int list \<Rightarrow> bool \<Rightarrow> world \<Rightarrow> (int list \<times> bool \<times> world) option" where
  "visual_loop ks redraw w =
     (case (if redraw then draw_screen w else Some w) of
        None \<Rightarrow> None
      | Some w1 \<Rightarrow>
          (case ks of
             [] \<Rightarrow> Some ([], False, w1)
           | ch # ks1 \<Rightarrow>
               if ch = 0 \<or> ch = 0xE0 then
                 (case ks1 of
                    [] \<Rightarrow> Some ([], False, w1)
                  | ch2 # ks2 \<Rightarrow>
                      if ch2 = 59 then
                        (case ks2 of
                           [] \<Rightarrow> Some ([], False, show_help_screen w1)
                         | k # ks3 \<Rightarrow> visual_loop ks3 True (show_help_screen w1))
                      else
                        (case extended_key ch2 w1 of
                           None \<Rightarrow> None
                         | Some (running, redraw1, w2) \<Rightarrow>
                             if running then visual_loop ks2 redraw1 w2 else Some (ks2, True, w2)))
               else
                 (case plain_key ch w1 of
                    None \<Rightarrow> None
                  | Some (running, redraw1, w2) \<Rightarrow>
                      if running then visual_loop ks1 redraw1 w2 else Some (ks1, True, w2))))"

declare visual_loop.simps [simp del]

text \<open>
  \<open>cmd_fullscreen\<close> returns \<open>(True, state)\<close> when the editor was left and \<open>(False, state)\<close>
  when it is still waiting for a key.
\<close>

definition cmd_fullscreen :: "world \<Rightarrow> (bool \<times> world) option" where
  "cmd_fullscreen w =
     (let w1 = detect_video_adapter w;
          w2 = (if line_count w1 = 0 then ensure_line_exists 0 w1 else w1);
          w3 = w2\<lparr>cursor_row := 0, cursor_col := 0, top_line := 0\<rparr>
      in case visual_loop (keys w3) True w3 of
           None \<Rightarrow> None
         | Some (rest, False, w4) \<Rightarrow> Some (False, w4\<lparr>keys := rest\<rparr>)
         | Some (rest, True, w4) \<Rightarrow> Some (True, conio Clrscr (w4\<lparr>keys := rest\<rparr>)))"

subsection \<open>The command loop\<close>

definition status_line :: "world \<Rightarrow> world" where
  "status_line w =
     printf (''Lines: '' @ fmt_d (line_count w) @ ''  File: '' @ name_or_none w @ [LF]) w"

definition help_text :: "string list" where
  "help_text =
     [''Commands:'',
      ''  L [a][,b]           list lines'',
      ''  I [n]               insert at n (end with a single '' @ [CHR 0x27] @ ''.'' @ [CHR 0x27] @ '')'',
      ''  D a[,b]             delete lines'',
      ''  E n                 edit (replace) line'',
      ''  R a[,b] /old/new/[g]  replace; '' @ [CHR 0x27] @ ''g'' @ [CHR 0x27] @ '' = global per line'',
      ''  S [a][,b] /text/    search (case-insensitive)'',
      ''  O name              open (load) file'',
      ''  W [name]            write (save) file'',
      ''  V                   fullscreen visual editor mode'',
      ''  P                   print status'',
      ''  H or ?              help'',
      ''  Q                   quit'']"

definition help_cmd :: "world \<Rightarrow> world" where
  "help_cmd w = fold puts help_text w"

text \<open>
  What one turn of the loop in \<open>main\<close> leads to: the next turn, the end of the
  program, the fullscreen editor waiting for a key that does not come, or
  undefined behaviour.
\<close>

datatype outcome = Next world | Quit world | Waiting world | Undefined

text \<open>
  In the \<open>R\<close> and \<open>S\<close> cases \<open>a\<close> and \<open>b\<close> keep their initial value \<open>-1\<close> when no
  range stands before the first slash.
\<close>

definition ranged ::
  "(int \<Rightarrow> int \<Rightarrow> string \<Rightarrow> world \<Rightarrow> world) \<Rightarrow> string \<Rightarrow> world \<Rightarrow> world" where
  "ranged cmd buf w =
     (let tmp = takeWhile (\<lambda>c. c \<noteq> CHR ''/'') buf;
          spec = dropWhile (\<lambda>c. c \<noteq> CHR ''/'') buf
      in if tmp \<noteq> [] then
           (case parse_range tmp w of
              None \<Rightarrow> puts ''! bad range'' w
            | Some (a, b) \<Rightarrow> cmd a b spec w)
         else cmd (- 1) (- 1) spec w)"

definition wrote :: "string \<Rightarrow> world \<Rightarrow> world" where
  "wrote name w =
     (case write_file name w of
        (False, w1) \<Rightarrow> puts ''! write failed'' w1
      | (True, w1) \<Rightarrow>
          printf (''-- wrote '' @ fmt_d (line_count w1) @ '' line(s) to '' @ name @ [LF]) w1)"

definition command :: "char \<Rightarrow> string \<Rightarrow> world \<Rightarrow> outcome" where
  "command cmd p w =
     (if cmd = CHR ''L'' then
        (if p = [] then Next (cmd_list 1 (line_count w) w)
         else case parse_range p w of
                None \<Rightarrow> Next (puts ''! bad range'' w)
              | Some (a, b) \<Rightarrow> Next (cmd_list a b w))
      else if cmd = CHR ''I'' then
        Next (cmd_insert (if p \<noteq> [] then atoi p else line_count w + 1) w)
      else if cmd = CHR ''D'' then
        (case parse_range p w of
           None \<Rightarrow> Next (puts ''! need D a[,b]'' w)
         | Some (a, b) \<Rightarrow> Next (cmd_delete a b w))
      else if cmd = CHR ''E'' then
        (if p = [] then Next (puts ''! need E n'' w) else Next (cmd_edit (atoi p) w))
      else if cmd = CHR ''R'' then
        (let buf = take (INPUT_LEN - 1) p in
         if CHR ''/'' \<in> set buf then Next (ranged cmd_replace buf w)
         else Next (puts ''! syntax: R a,b /old/new/[g]'' w))
      else if cmd = CHR ''O'' then
        (if p = [] then Next (puts ''! need filename'' w)
         else case load_file p w of
                (False, w1) \<Rightarrow> Next (puts ''! open failed'' w1)
              | (True, w1) \<Rightarrow>
                  Next (printf (''-- loaded '' @ fmt_d (line_count w1) @ '' line(s)'' @ [LF]) w1))
      else if cmd = CHR ''S'' then
        (let buf = take (INPUT_LEN - 1) p in
         if CHR ''/'' \<in> set buf then Next (ranged cmd_search buf w)
         else Next (cmd_search 1 (line_count w) p w))
      else if cmd = CHR ''W'' then
        (if p \<noteq> [] then Next (wrote p w)
         else if current_file w \<noteq> [] then Next (wrote (current_file w) w)
         else Next (puts ''! W needs filename (no current file)'' w))
      else if cmd = CHR ''V'' then
        (case cmd_fullscreen w of
           None \<Rightarrow> Undefined
         | Some (False, w1) \<Rightarrow> Waiting w1
         | Some (True, w1) \<Rightarrow> Next w1)
      else if cmd = CHR ''P'' then Next (status_line w)
      else if cmd = CHR ''H'' \<or> cmd = CHR ''?'' then Next (help_cmd w)
      else if cmd = CHR ''Q'' then Quit w
      else Next (puts ''?'' w))"

text \<open>
  One turn of the loop in \<open>main\<close>: the prompt, one line of input, the command, and
  the status line after every command that came back (an empty line skips it).
\<close>

definition main_step :: "world \<Rightarrow> outcome" where
  "main_step w =
     (let w0 = printf ''* '' w in
      case fgets INPUT_LEN (stdin w0) of
        None \<Rightarrow> Quit w0
      | Some (inp, rest) \<Rightarrow>
          (let w1 = w0\<lparr>stdin := rest\<rparr> in
           case dropWhile isspace (chomp inp) of
             [] \<Rightarrow> Next w1
           | c # p1 \<Rightarrow>
               (case command (toupper c) (dropWhile isspace p1) w1 of
                  Next w2 \<Rightarrow> Next (status_line w2)
                | other \<Rightarrow> other)))"

subsection \<open>Predicates and sample states for the properties\<close>

text \<open>The bounds on \<open>line_count\<close>, and the store invariant of the specification:
  no slot below \<open>line_count\<close> holds a null pointer.\<close>

definition count_ok :: "world \<Rightarrow> bool" where
  "count_ok w = (0 \<le> line_count w \<and> line_count w \<le> MAX_LINES)"

definition store_ok :: "world \<Rightarrow> bool" where
  "store_ok w = list_all (\<lambda>i. lines w i \<noteq> None) [0..line_count w - 1]"

text \<open>The visible document: the slots below \<open>line_count\<close>, in order.\<close>

definition document :: "world \<Rightarrow> string option list" where
  "document w = map (lines w) [0..line_count w - 1]"

text \<open>A full store, with one more line waiting on standard input.\<close>

definition full_store :: world where
  "full_store = world0\<lparr>lines := (\<lambda>i. Some ''x''), line_count := 1200, stdin := ''one more\<newline>.\<newline>''\<rparr>"

text \<open>
  The state \<open>insert_loop\<close> reaches after it has read a line and \<open>make_room\<close> has
  opened the slot \<open>pos\<close> for it.
\<close>

definition opened :: "int \<Rightarrow> string \<Rightarrow> world \<Rightarrow> world" where
  "opened pos rest w =
     (printf (fmt_05d (pos + 1) @ '': '') w)
       \<lparr>stdin := rest, lines := make_room_loop (line_count w - 1) pos 1 (lines w),
        line_count := line_count w + 1\<rparr>"

text \<open>A document of three lines with one line to insert on standard input; the same
  with the cursor at the end of its first line; and an empty document whose first
  allocation fails.\<close>

definition three_lines :: world where
  "three_lines = world0\<lparr>lines := (\<lambda>i. None)(0 \<mapsto> ''a'', 1 \<mapsto> ''b'', 2 \<mapsto> ''c''),
     line_count := 3, stdin := ''x\<newline>.\<newline>''\<rparr>"

definition join_state :: world where
  "join_state = three_lines\<lparr>cursor_row := 0, cursor_col := 1\<rparr>"

definition alloc_fails :: world where
  "alloc_fails = world0\<lparr>stdin := ''x\<newline>.\<newline>'', heap := [False]\<rparr>"

text \<open>Two lines, the cursor at column 3 of the first, \<open>abcdef\<close>.\<close>

definition abcdef_state :: world where
  "abcdef_state = world0\<lparr>lines := (\<lambda>i. None)(0 \<mapsto> ''abcdef'', 1 \<mapsto> ''next''),
     line_count := 2, cursor_col := 3\<rparr>"

text \<open>A document whose only line has 254 bytes, the cursor at its start.\<close>

definition line_254 :: world where
  "line_254 = world0\<lparr>lines := (\<lambda>i. None)(0 \<mapsto> CHR ''a'' # replicate 253 (CHR ''c'')),
     line_count := 1\<rparr>"

text \<open>
  Files for the round trip: the text of a file given as a list of lines, each with
  its content and a flag for a CR LF ending (LF otherwise). A line is \<open>loadable\<close>
  when one call of \<^verbatim>\<open>fgets\<close> into the buffer of \<open>LINE_LEN\<close> bytes takes it whole and
  \<open>chomp\<close> gives back its content: no NUL and no line feed inside, content and
  ending together below \<open>LINE_LEN\<close> bytes, and no CR at the end of the content of
  a line that ends in LF alone.
\<close>

definition line_end :: "bool \<Rightarrow> string" where
  "line_end crlf = (if crlf then [CR, LF] else [LF])"

definition file_text :: "(string \<times> bool) list \<Rightarrow> string" where
  "file_text ls = concat (map (\<lambda>(l, crlf). l @ line_end crlf) ls)"

definition loadable :: "string \<times> bool \<Rightarrow> bool" where
  "loadable lc =
     (case lc of
        (l, crlf) \<Rightarrow>
          NUL \<notin> set l \<and> LF \<notin> set l \<and> length (l @ line_end crlf) < LINE_LEN
          \<and> (crlf \<or> l = [] \<or> last l \<noteq> CR))"

text \<open>A file of two lines, one ending in LF and one in CR LF; and a file whose
  only line has \<open>LINE_LEN - 1\<close> bytes before its line feed.\<close>

definition sample_file :: world where
  "sample_file = world0\<lparr>files := (\<lambda>n. None)(''IN.TXT'' \<mapsto> ''ab\<newline>cd'' @ [CR, LF])\<rparr>"

definition long_line_file :: world where
  "long_line_file = world0\<lparr>files := (\<lambda>n. None)(''F'' \<mapsto> replicate 255 (CHR ''a'') @ [LF])\<rparr>"

text \<open>
  \<open>last_a\<close> and \<open>last_b\<close> are set by the commands and read by none. \<open>set_range\<close>
  gives them other values, and \<open>forget_range\<close> sets them to 0 in an outcome, so
  that two outcomes are equal under it when they agree in everything else.
\<close>

definition set_range :: "int \<Rightarrow> int \<Rightarrow> world \<Rightarrow> world" where
  "set_range x y w = w\<lparr>last_a := x, last_b := y\<rparr>"

fun forget_range :: "outcome \<Rightarrow> outcome" where
  "forget_range (Next w) = Next (set_range 0 0 w)"
| "forget_range (Quit w) = Quit (set_range 0 0 w)"
| "forget_range (Waiting w) = Waiting (set_range 0 0 w)"
| "forget_range Undefined = Undefined"

section \<open>Properties\<close>

subsection \<open>Range clamp\<close>

text \<open>
  C1, as amended. On a non-empty document \<open>to_range_defaults\<close> returns a pair with
  \<open>1 \<le> a \<le> b\<close> and \<open>a \<le> line_count\<close>. The upper end \<open>b\<close> is at most \<open>line_count\<close>
  when the \<open>a\<close> passed in was: the swap puts an unclamped \<open>a\<close> in the place of \<open>b\<close>,
  so in general \<open>b\<close> is bounded by the larger of \<open>line_count\<close> and that \<open>a\<close>.
\<close>

theorem to_range_defaults_bounds:
  assumes "0 < line_count w" and "to_range_defaults a b w = (a', b')"
  shows "1 \<le> a' \<and> a' \<le> b' \<and> a' \<le> line_count w \<and> b' \<le> max (line_count w) a
         \<and> (a \<le> line_count w \<longrightarrow> b' \<le> line_count w)"
  using assms by (auto simp: to_range_defaults_def Let_def split: if_splits)

theorem to_range_defaults_bounds_witness:
  "0 < line_count (world0\<lparr>line_count := 5\<rparr>)
   \<and> to_range_defaults 4 2 (world0\<lparr>line_count := 5\<rparr>) = (2, 4)
   \<and> (1::int) \<le> 2 \<and> (2::int) \<le> 4 \<and> 2 \<le> line_count (world0\<lparr>line_count := 5\<rparr>)
   \<and> 4 \<le> line_count (world0\<lparr>line_count := 5\<rparr>)"
proof -
  have h1: "0 < line_count (world0\<lparr>line_count := 5\<rparr>)" by simp
  have h2: "to_range_defaults 4 2 (world0\<lparr>line_count := 5\<rparr>) = (2, 4)"
    by (simp add: to_range_defaults_def)
  from to_range_defaults_bounds [OF h1 h2] h1 h2 show ?thesis by simp
qed

text \<open>
  The claim as stated fails: the command text \<open>10,3\<close> on a document of five lines
  resolves to \<open>(10, 3)\<close>, and the clamp/swap step turns it into \<open>(3, 10)\<close>, whose
  upper end is beyond \<open>line_count\<close>.
\<close>

theorem to_range_defaults_counterexample:
  "0 < line_count (world0\<lparr>line_count := 5\<rparr>)
   \<and> parse_range ''10,3'' (world0\<lparr>line_count := 5\<rparr>) = Some (10, 3)
   \<and> to_range_defaults 10 3 (world0\<lparr>line_count := 5\<rparr>) = (3, 10)
   \<and> \<not> snd (to_range_defaults 10 3 (world0\<lparr>line_count := 5\<rparr>))
         \<le> line_count (world0\<lparr>line_count := 5\<rparr>)"
  by (simp add: to_range_defaults_def parse_range_def atoi_def int16_def isspace_def isdigit_def)


subsection \<open>Substitution engine\<close>

lemma malloc_ok: "allocs_succeed w \<Longrightarrow> malloc w = (True, w\<lparr>heap := tl (heap w)\<rparr>)"
  by (cases "heap w") (auto simp: malloc_def allocs_succeed_def)

lemma list_all_tl: "list_all P xs \<Longrightarrow> list_all P (tl xs)"
  by (cases xs) auto

lemma malloc_False: "malloc w = (False, w1) \<Longrightarrow> \<not> allocs_succeed w"
  by (auto simp: malloc_def allocs_succeed_def split: list.splits)

lemma malloc_True: "malloc w = (True, w1) \<Longrightarrow> allocs_succeed w \<Longrightarrow> allocs_succeed w1"
  by (auto simp: malloc_def allocs_succeed_def split: list.splits)

lemma strstr_bound: "strstr s p = Some k \<Longrightarrow> k + length p \<le> length s"
proof (induction s arbitrary: k)
  case Nil
  then show ?case by (simp split: if_splits)
next
  case (Cons c cs)
  show ?case
  proof (cases "take (length p) (c # cs) = p")
    case True
    from arg_cong [OF True, of length] have "length p \<le> length (c # cs)"
      by (simp add: min_def split: if_splits)
    with True Cons.prems show ?thesis by simp
  next
    case False
    with Cons.prems obtain j where "strstr cs p = Some j" "k = Suc j" by auto
    with Cons.IH show ?thesis by simp
  qed
qed

lemma length_subst_at:
  "strstr s oldp = Some p \<Longrightarrow>
   length (subst_at s p oldp newp) = p + length newp + (length s - (p + length oldp))"
  by (drule strstr_bound) (simp add: subst_at_def)

lemma replace_loop_spec:
  assumes "replace_loop s oldp newp global made limit w = (made', s', w')"
  shows "made \<le> made'
    \<and> (global \<longrightarrow> made' - made \<le> max 1 limit) \<and> (\<not> global \<longrightarrow> made' - made \<le> 1)
    \<and> subst_n (nat (made' - made)) s oldp newp = Some s'
    \<and> (\<forall>k < nat (made' - made). \<exists>t p. subst_n k s oldp newp = Some t \<and> strstr t oldp = Some p
           \<and> length (subst_at t p oldp newp) + 1 < LINE_LEN)
    \<and> (allocs_succeed w \<longrightarrow>
          (global \<and> made' - made = max 1 limit) \<or> (\<not> global \<and> made' - made = 1)
          \<or> strstr s' oldp = None
          \<or> (\<exists>p. strstr s' oldp = Some p \<and> LINE_LEN \<le> length (subst_at s' p oldp newp) + 1))"
  using assms
proof (induction s oldp newp global made limit w rule: replace_loop.induct)
  case (1 s oldp newp global made limit w)
  show ?case
  proof (cases "strstr s oldp")
    case None
    with "1.prems" show ?thesis by (auto simp: replace_loop.simps)
  next
    case (Some p)
    note len = length_subst_at [OF Some, of newp]
    show ?thesis
    proof (cases "LINE_LEN \<le> p + length newp + (length s - (p + length oldp)) + 1")
      case True
      with Some "1.prems" len show ?thesis by (auto simp: replace_loop.simps)
    next
      case fits: False
      obtain ok w1 where m: "malloc w = (ok, w1)" by (cases "malloc w")
      show ?thesis
      proof (cases ok)
        case False
        with Some fits m "1.prems" malloc_False [of w w1] show ?thesis
          by (auto simp: replace_loop.simps)
      next
        case True
        let ?buf = "take p s @ newp @ drop (p + length oldp) s"
        have buf: "?buf = subst_at s p oldp newp" by (simp add: subst_at_def)
        have step0: "\<exists>t q. subst_n 0 s oldp newp = Some t \<and> strstr t oldp = Some q
           \<and> length (subst_at t q oldp newp) + 1 < LINE_LEN"
          using Some fits len by simp
        have unf: "replace_loop s oldp newp global made limit w =
            (if \<not> global then (made + 1, ?buf, w1)
             else if limit - 1 \<le> 0 then (made + 1, ?buf, w1)
             else replace_loop ?buf oldp newp global (made + 1) (limit - 1) w1)"
          using Some fits m True by (subst replace_loop.simps) (simp add: Let_def)
        show ?thesis
        proof (cases "\<not> global \<or> limit - 1 \<le> 0")
          case stop: True
          then have res: "made' = made + 1" "s' = ?buf"
            using unf "1.prems" by (auto split: if_splits)
          have "subst_n (nat (made' - made)) s oldp newp = Some s'"
            using res Some buf by simp
          moreover have "\<forall>k < nat (made' - made). \<exists>t q. subst_n k s oldp newp = Some t
              \<and> strstr t oldp = Some q \<and> length (subst_at t q oldp newp) + 1 < LINE_LEN"
            using res step0 by (simp del: subst_n.simps)
          ultimately show ?thesis using res stop by auto
        next
          case go: False
          then have g: "global" "\<not> limit - 1 \<le> 0" by auto
          have rec: "replace_loop ?buf oldp newp global (made + 1) (limit - 1) w1 = (made', s', w')"
            using unf g "1.prems" by simp
          have ok_True: "ok = True" using True by simp
          have nng: "\<not> \<not> global" using g by simp
          note IH = "1.IH" [OF Some refl refl refl fits m [symmetric] ok_True refl nng g(2) rec]
          define d where "d = nat (made' - (made + 1))"
          have le: "made + 1 \<le> made'" using IH by blast
          have ub: "made' - (made + 1) \<le> max 1 (limit - 1)" using IH g by blast
          have dn: "nat (made' - made) = Suc d" using le unfolding d_def by arith
          have c1: "made \<le> made'" using le by simp
          have c2: "global \<longrightarrow> made' - made \<le> max 1 limit" using ub g by (simp add: max_def)
          have c3: "\<not> global \<longrightarrow> made' - made \<le> 1" using g by simp
          have "subst_n d ?buf oldp newp = Some s'" using IH unfolding d_def by blast
          then have c4: "subst_n (nat (made' - made)) s oldp newp = Some s'"
            using Some buf by (simp add: dn)
          have c5: "\<forall>k < nat (made' - made). \<exists>t q. subst_n k s oldp newp = Some t
              \<and> strstr t oldp = Some q \<and> length (subst_at t q oldp newp) + 1 < LINE_LEN"
          proof (intro allI impI)
            fix k assume k: "k < nat (made' - made)"
            show "\<exists>t q. subst_n k s oldp newp = Some t
              \<and> strstr t oldp = Some q \<and> length (subst_at t q oldp newp) + 1 < LINE_LEN"
            proof (cases k)
              case 0
              with step0 show ?thesis by simp
            next
              case (Suc j)
              with k dn have "j < nat (made' - (made + 1))" by (simp add: d_def)
              with IH obtain t q where "subst_n j ?buf oldp newp = Some t"
                "strstr t oldp = Some q" "length (subst_at t q oldp newp) + 1 < LINE_LEN"
                by blast
              with Suc Some buf show ?thesis by simp
            qed
          qed
          have c6: "allocs_succeed w \<longrightarrow>
              (global \<and> made' - made = max 1 limit) \<or> (\<not> global \<and> made' - made = 1)
              \<or> strstr s' oldp = None
              \<or> (\<exists>q. strstr s' oldp = Some q \<and> LINE_LEN \<le> length (subst_at s' q oldp newp) + 1)"
          proof
            assume "allocs_succeed w"
            with m True have "allocs_succeed w1" by (auto dest: malloc_True)
            with IH have "(global \<and> made' - (made + 1) = max 1 (limit - 1))
              \<or> (\<not> global \<and> made' - (made + 1) = 1)
              \<or> strstr s' oldp = None
              \<or> (\<exists>q. strstr s' oldp = Some q \<and> LINE_LEN \<le> length (subst_at s' q oldp newp) + 1)"
              by blast
            with g show "(global \<and> made' - made = max 1 limit) \<or> (\<not> global \<and> made' - made = 1)
              \<or> strstr s' oldp = None
              \<or> (\<exists>q. strstr s' oldp = Some q \<and> LINE_LEN \<le> length (subst_at s' q oldp newp) + 1)"
              by (auto simp: max_def)
          qed
          from c1 c2 c3 c4 c5 c6 show ?thesis by blast
        qed
      qed
    qed
  qed
qed

lemma malloc_upd:
  "list_all (\<lambda>b. b) h \<Longrightarrow> malloc (w\<lparr>heap := h\<rparr>) = (True, w\<lparr>heap := tl h\<rparr>)"
  by (cases h) (auto simp: malloc_def)

text \<open>
  What the engine does, for every line and every \<open>old\<close>/\<open>new\<close> pair. It returns the
  number of substitutions it applied, and the line it leaves is the result of
  exactly that many substitutions, each at the first occurrence in the line as it
  then stood. Every substitution applied produced a line of at most \<open>LINE_LEN - 2\<close>
  (254) bytes: an occurrence is replaced only when the result with its terminator
  is shorter than \<open>LINE_LEN\<close>. With no allocation failing, the engine stops only
  when \<open>old\<close> no longer occurs, when the next result would have \<open>LINE_LEN - 1\<close> bytes
  or more, after the first substitution when not global, or after 1024 substitutions.
\<close>

theorem replace_in_line_spec:
  assumes "replace_in_line s oldp newp global w = (made, s', w')"
  shows "0 \<le> made \<and> made \<le> 1024 \<and> (\<not> global \<longrightarrow> made \<le> 1)
    \<and> subst_n (nat made) s oldp newp = Some s'
    \<and> (\<forall>k < nat made. \<exists>t p. subst_n k s oldp newp = Some t \<and> strstr t oldp = Some p
           \<and> length (subst_at t p oldp newp) + 1 < LINE_LEN)
    \<and> (oldp \<noteq> [] \<and> allocs_succeed w \<longrightarrow>
          (global \<and> made = 1024) \<or> (\<not> global \<and> made = 1)
          \<or> strstr s' oldp = None
          \<or> (\<exists>p. strstr s' oldp = Some p \<and> LINE_LEN \<le> length (subst_at s' p oldp newp) + 1))"
proof (cases "oldp = []")
  case True
  with assms show ?thesis by (simp add: replace_in_line_def)
next
  case False
  with assms have "replace_loop s oldp newp global 0 1024 w = (made, s', w')"
    by (simp add: replace_in_line_def)
  from replace_loop_spec [OF this] False show ?thesis by (cases global) (simp_all add: max_def)
qed

theorem replace_in_line_spec_witness:
  "replace_in_line (CHR ''a'' # replicate 253 (CHR ''c'')) ''a'' ''bb'' True world0
       = (0, CHR ''a'' # replicate 253 (CHR ''c''), world0)
   \<and> allocs_succeed world0
   \<and> subst_n 0 (CHR ''a'' # replicate 253 (CHR ''c'')) ''a'' ''bb''
       = Some (CHR ''a'' # replicate 253 (CHR ''c''))
   \<and> strstr (CHR ''a'' # replicate 253 (CHR ''c'')) ''a'' = Some 0
   \<and> (\<exists>p. strstr (CHR ''a'' # replicate 253 (CHR ''c'')) ''a'' = Some p
          \<and> LINE_LEN \<le> length (subst_at (CHR ''a'' # replicate 253 (CHR ''c'')) p ''a'' ''bb'') + 1)"
proof -
  have h: "replace_in_line (CHR ''a'' # replicate 253 (CHR ''c'')) ''a'' ''bb'' True world0
       = (0, CHR ''a'' # replicate 253 (CHR ''c''), world0)"
    by (simp add: replace_in_line_def replace_loop.simps subst_at_def LINE_LEN_def)
  have a: "allocs_succeed world0" by (simp add: allocs_succeed_def world0_def)
  have s: "strstr (CHR ''a'' # replicate 253 (CHR ''c'')) ''a'' = Some 0" by simp
  from replace_in_line_spec [OF h] a s h show ?thesis by simp
qed

text \<open>
  C3. The engine refuses a substitution whose result has exactly \<open>LINE_LEN - 1\<close>
  (255) bytes, a line that does not exceed the limit and that the buffer of
  \<open>LINE_LEN\<close> bytes holds with its terminator. In a line of 254 bytes, \<open>a\<close> followed
  by 253 times \<open>c\<close>, the pattern \<open>a\<close> occurs at the start and \<open>bb\<close> in its place
  gives 255 bytes; the engine returns the count 0 and the line as it was. Its
  test is \<^verbatim>\<open>prefix + sn + suffix + 1 >= LINE_LEN\<close>, one byte stricter than the tests
  of \<open>insert_char\<close> and of the join in \<open>delete_char\<close>, which let a line reach 255
  bytes.
\<close>

theorem replace_in_line_boundary:
  "strstr (CHR ''a'' # replicate 253 (CHR ''c'')) ''a'' = Some 0
   \<and> length (subst_at (CHR ''a'' # replicate 253 (CHR ''c'')) 0 ''a'' ''bb'') = 255
   \<and> 255 + 1 \<le> LINE_LEN
   \<and> replace_in_line (CHR ''a'' # replicate 253 (CHR ''c'')) ''a'' ''bb'' True world0
       = (0, CHR ''a'' # replicate 253 (CHR ''c''), world0)"
  by (simp add: replace_in_line_def replace_loop.simps subst_at_def LINE_LEN_def)

text \<open>
  The same line takes one more byte from the fullscreen editor: \<open>insert_char\<close> at
  its start makes it a line of 255 bytes.
\<close>

lemma insert_char_reaches_255:
  "insert_char (CHR ''b'') line_254
     = Some (line_254\<lparr>lines := (lines line_254)(0 \<mapsto> CHR ''b'' # CHR ''a'' # replicate 253 (CHR ''c'')),
                      cursor_col := 1\<rparr>)
   \<and> length (CHR ''b'' # CHR ''a'' # replicate 253 (CHR ''c'')) = 255"
proof -
  have e: "ensure_line_exists 0 line_254 = line_254"
    by (subst ensure_line_exists.simps) (simp add: line_254_def world0_def)
  have l: "line_at line_254 0 = Some (CHR ''a'' # replicate 253 (CHR ''c''))"
    by (simp add: line_at_def line_254_def MAX_LINES_def)
  have m: "malloc line_254 = (True, line_254)"
    by (simp add: malloc_def line_254_def world0_def)
  have c: "cursor_row line_254 = 0" "cursor_col line_254 = 0"
    by (simp_all add: line_254_def world0_def)
  show ?thesis
    by (simp add: insert_char_def Let_def c e l m LINE_LEN_def)
qed


text \<open>
  C4. When no allocation fails, the engine turns \<open>aaa\<close> into \<open>bbb\<close> with count 3 when
  global, and into \<open>baa\<close> with count 1 when not.
\<close>

theorem replace_count_aaa:
  assumes "allocs_succeed w"
  shows "(\<exists>w'. replace_in_line ''aaa'' ''a'' ''b'' True w = (3, ''bbb'', w'))
       \<and> (\<exists>w'. replace_in_line ''aaa'' ''a'' ''b'' False w = (1, ''baa'', w'))"
proof -
  have h: "list_all (\<lambda>b. b) (heap w)" using assms by (simp add: allocs_succeed_def)
  note m0 = malloc_ok [OF assms]
  show ?thesis
    by (simp add: replace_in_line_def replace_loop.simps [of "''aaa''"] replace_loop.simps [of "''baa''"]
        replace_loop.simps [of "''bba''"] replace_loop.simps [of "''bbb''"] m0 malloc_upd list_all_tl h
        LINE_LEN_def)
qed

theorem replace_count_aaa_witness:
  "allocs_succeed world0
   \<and> (\<exists>w'. replace_in_line ''aaa'' ''a'' ''b'' True world0 = (3, ''bbb'', w'))
   \<and> (\<exists>w'. replace_in_line ''aaa'' ''a'' ''b'' False world0 = (1, ''baa'', w'))"
proof -
  have h: "allocs_succeed world0" by (simp add: allocs_succeed_def world0_def)
  from replace_count_aaa [OF h] h show ?thesis by simp
qed


subsection \<open>Line store\<close>

lemma make_room_loop_apply:
  "0 < count \<Longrightarrow>
   make_room_loop i pos count ls j =
     (if pos + count \<le> j \<and> j \<le> i + count then ls (j - count) else ls j)"
proof (induction i pos count ls rule: make_room_loop.induct)
  case (1 i pos count ls)
  show ?case
  proof (cases "i \<ge> pos")
    case True
    have "make_room_loop i pos count ls j
        = make_room_loop (i - 1) pos count (ls(i + count := ls i)) j"
      using True by (subst make_room_loop.simps) simp
    also have "\<dots> = (if pos + count \<le> j \<and> j \<le> i - 1 + count
        then (ls(i + count := ls i)) (j - count) else (ls(i + count := ls i)) j)"
      using "1.IH" [OF True "1.prems"] .
    also have "\<dots> = (if pos + count \<le> j \<and> j \<le> i + count then ls (j - count) else ls j)"
      using True "1.prems" by auto
    finally show ?thesis .
  next
    case False
    then show ?thesis by (subst make_room_loop.simps) auto
  qed
qed

lemma close_gap_loop_apply:
  "0 \<le> count \<Longrightarrow>
   close_gap_loop i count lc ls j =
     (if i \<le> j \<and> j + count < lc then ls (j + count) else ls j)"
proof (induction i count lc ls rule: close_gap_loop.induct)
  case (1 i count lc ls)
  show ?case
  proof (cases "i + count < lc")
    case True
    have "close_gap_loop i count lc ls j
        = close_gap_loop (i + 1) count lc (ls(i := ls (i + count))) j"
      using True by (subst close_gap_loop.simps) simp
    also have "\<dots> = (if i + 1 \<le> j \<and> j + count < lc
        then (ls(i := ls (i + count))) (j + count) else (ls(i := ls (i + count))) j)"
      using "1.IH" [OF True "1.prems"] .
    also have "\<dots> = (if i \<le> j \<and> j + count < lc then ls (j + count) else ls j)"
      using True "1.prems" by auto
    finally show ?thesis .
  next
    case False
    then show ?thesis by (subst close_gap_loop.simps) auto
  qed
qed

lemma make_room_full:
  "0 < count \<Longrightarrow> MAX_LINES < line_count w + count \<Longrightarrow> make_room pos count w = (False, w)"
  by (simp add: make_room_def)

lemma insert_loop_full:
  assumes "line_count w = MAX_LINES" and "fgets LINE_LEN (stdin w) = Some (buf, rest)"
    and "chomp buf \<noteq> ''.''"
  shows "insert_loop pos w =
    (pos, puts ''! out of space'' ((printf (fmt_05d (pos + 1) @ '': '') w)\<lparr>stdin := rest\<rparr>))"
  using assms
  by (subst insert_loop.simps) (simp add: Let_def printf_def make_room_def)

text \<open>
  C6. \<open>make_room\<close> fails and returns the state as it was whenever the resulting
  size would exceed \<open>MAX_LINES\<close> (for sizes a 16-bit \<open>int\<close> can hold). With
  \<open>MAX_LINES\<close> lines in the store, \<open>cmd_insert\<close> reads one more line, reports
  \<open>! out of space\<close>, and leaves \<open>lines\<close> and \<open>line_count\<close> as they were; it does not
  allocate.
\<close>

theorem capacity_boundary:
  "(0 < count \<and> MAX_LINES < line_count w + count \<and> line_count w + count \<le> 32767
      \<longrightarrow> make_room pos count w = (False, w))
   \<and> (line_count w = MAX_LINES \<and> fgets LINE_LEN (stdin w) = Some (buf, rest) \<and> chomp buf \<noteq> ''.''
      \<longrightarrow> lines (cmd_insert n w) = lines w \<and> line_count (cmd_insert n w) = MAX_LINES
          \<and> heap (cmd_insert n w) = heap w \<and> stdin (cmd_insert n w) = rest
          \<and> last (console (cmd_insert n w)) = Out ''! out of space\<newline>'')"
proof (intro conjI impI)
  assume "0 < count \<and> MAX_LINES < line_count w + count \<and> line_count w + count \<le> 32767"
  then show "make_room pos count w = (False, w)" by (simp add: make_room_full)
next
  assume a: "line_count w = MAX_LINES \<and> fgets LINE_LEN (stdin w) = Some (buf, rest) \<and> chomp buf \<noteq> ''.''"
  have l: "\<And>pos w1. line_count w1 = MAX_LINES \<Longrightarrow> stdin w1 = stdin w \<Longrightarrow>
     insert_loop pos w1 = (pos, puts ''! out of space'' ((printf (fmt_05d (pos + 1) @ '': '') w1)\<lparr>stdin := rest\<rparr>))"
    using a by (intro insert_loop_full) auto
  show "lines (cmd_insert n w) = lines w" using a
    by (simp add: cmd_insert_def Let_def l printf_def puts_def)
  show "line_count (cmd_insert n w) = MAX_LINES" using a
    by (simp add: cmd_insert_def Let_def l printf_def puts_def)
  show "heap (cmd_insert n w) = heap w" using a
    by (simp add: cmd_insert_def Let_def l printf_def puts_def)
  show "stdin (cmd_insert n w) = rest" using a
    by (simp add: cmd_insert_def Let_def l printf_def puts_def)
  show "last (console (cmd_insert n w)) = Out ''! out of space\<newline>''" using a
    by (simp add: cmd_insert_def Let_def l printf_def puts_def LF_def)
qed

theorem capacity_boundary_witness:
  "0 < (1::int) \<and> MAX_LINES < line_count full_store + 1 \<and> line_count full_store + 1 \<le> 32767
   \<and> make_room 7 1 full_store = (False, full_store)
   \<and> line_count full_store = MAX_LINES
   \<and> fgets LINE_LEN (stdin full_store) = Some (''one more\<newline>'', ''.\<newline>'')
   \<and> chomp ''one more\<newline>'' \<noteq> ''.''
   \<and> lines (cmd_insert 7 full_store) = lines full_store
   \<and> line_count (cmd_insert 7 full_store) = MAX_LINES
   \<and> last (console (cmd_insert 7 full_store)) = Out ''! out of space\<newline>''"
proof -
  have h1: "0 < (1::int) \<and> MAX_LINES < line_count full_store + 1 \<and> line_count full_store + 1 \<le> 32767"
    by (simp add: full_store_def MAX_LINES_def)
  have h2: "line_count full_store = MAX_LINES
     \<and> fgets LINE_LEN (stdin full_store) = Some (''one more\<newline>'', ''.\<newline>'')
     \<and> chomp ''one more\<newline>'' \<noteq> ''.''"
    by (simp add: full_store_def MAX_LINES_def fgets_def LINE_LEN_def LF_def NUL_def chomp_def CR_def)
  from capacity_boundary [of 1 full_store 7 "''one more\<newline>''" "''.\<newline>''" 7] h1 h2
  show ?thesis by simp
qed


subsection \<open>Insert, delete, edit and load\<close>

lemma store_ok_iff:
  "store_ok w \<longleftrightarrow> (\<forall>i. 0 \<le> i \<and> i < line_count w \<longrightarrow> lines w i \<noteq> None)"
  by (auto simp: store_ok_def list_all_iff)

lemma xstrdup_cases:
  obtains (fail) w1 where "xstrdup s w = (None, w1)" "\<not> allocs_succeed w"
      "lines w1 = lines w" "line_count w1 = line_count w" "stdin w1 = stdin w"
    | (ok) w1 where "xstrdup s w = (Some s, w1)" "allocs_succeed w \<longrightarrow> allocs_succeed w1"
      "lines w1 = lines w" "line_count w1 = line_count w" "stdin w1 = stdin w"
proof (cases "heap w")
  case Nil
  then have "xstrdup s w = (Some s, w)" by (simp add: xstrdup_def malloc_def)
  then show ?thesis using ok by blast
next
  case (Cons b bs)
  show ?thesis
  proof (cases b)
    case True
    with Cons have "xstrdup s w = (Some s, w\<lparr>heap := bs\<rparr>)" by (simp add: xstrdup_def malloc_def)
    moreover have "allocs_succeed w \<longrightarrow> allocs_succeed (w\<lparr>heap := bs\<rparr>)"
      using Cons by (simp add: allocs_succeed_def)
    ultimately show ?thesis using ok by simp
  next
    case False
    with Cons have "xstrdup s w = (None, w\<lparr>heap := bs\<rparr>)" by (simp add: xstrdup_def malloc_def)
    moreover have "\<not> allocs_succeed w" using Cons False by (simp add: allocs_succeed_def)
    ultimately show ?thesis using fail by simp
  qed
qed

lemma insert_loop_eof:
  "fgets LINE_LEN (stdin w) = None \<Longrightarrow>
   insert_loop pos w = (pos, printf (fmt_05d (pos + 1) @ '': '') w)"
  by (subst insert_loop.simps) (simp add: Let_def printf_def)

lemma insert_loop_dot:
  "fgets LINE_LEN (stdin w) = Some (buf, rest) \<Longrightarrow> chomp buf = ''.'' \<Longrightarrow>
   insert_loop pos w = (pos, (printf (fmt_05d (pos + 1) @ '': '') w)\<lparr>stdin := rest\<rparr>)"
  by (subst insert_loop.simps) (simp add: Let_def printf_def)

lemma insert_loop_step:
  assumes "fgets LINE_LEN (stdin w) = Some (buf, rest)" "chomp buf \<noteq> ''.''"
    and "line_count w < MAX_LINES" and "xstrdup (chomp buf) (opened pos rest w) = (p, w3)"
  shows "insert_loop pos w =
     (if p = None then (pos, puts ''! alloc failed'' (w3\<lparr>lines := (lines w3)(pos := p)\<rparr>))
      else insert_loop (pos + 1) (w3\<lparr>lines := (lines w3)(pos := p)\<rparr>))"
proof -
  have "(printf (fmt_05d (pos + 1) @ '': '') w)
       \<lparr>stdin := rest, lines := make_room_loop (line_count w - 1) pos 1 (lines w),
        line_count := line_count w + 1\<rparr>
      = (printf (fmt_05d (pos + 1) @ '': '') w)
       \<lparr>stdin := rest\<rparr>\<lparr>lines := make_room_loop (line_count w - 1) pos 1 (lines w),
        line_count := line_count w + 1\<rparr>" by simp
  with assms show ?thesis
    by (subst insert_loop.simps) (simp add: Let_def printf_def make_room_def opened_def)
qed

lemma insert_loop_inv:
  assumes "insert_loop pos w = (pos', w')" "count_ok w" "0 \<le> pos" "pos \<le> line_count w"
  shows "count_ok w' \<and> pos \<le> pos' \<and> pos' \<le> line_count w'
       \<and> (store_ok w \<and> allocs_succeed w \<longrightarrow> store_ok w')"
  using assms
proof (induction "length (stdin w)" arbitrary: pos w rule: less_induct)
  case less
  show ?case
  proof (cases "fgets LINE_LEN (stdin w)")
    case None
    with less.prems insert_loop_eof [OF None, of pos] show ?thesis
      by (auto simp: printf_def count_ok_def store_ok_iff)
  next
    case (Some br)
    obtain buf rest where br: "br = (buf, rest)" by (cases br)
    note fg = Some [unfolded br]
    show ?thesis
    proof (cases "chomp buf = ''.''")
      case True
      with less.prems insert_loop_dot [OF fg True, of pos] show ?thesis
        by (auto simp: printf_def count_ok_def store_ok_iff)
    next
      case notdot: False
      show ?thesis
      proof (cases "line_count w < MAX_LINES")
        case False
        with less.prems(2) have full: "line_count w = MAX_LINES" by (simp add: count_ok_def)
        from less.prems insert_loop_full [OF full fg notdot, of pos] show ?thesis
          by (auto simp: printf_def puts_def count_ok_def store_ok_iff)
      next
        case room: True
        let ?o = "opened pos rest w"
        have o_lines: "\<And>j. lines ?o j = (if pos + 1 \<le> j \<and> j \<le> line_count w then lines w (j - 1) else lines w j)"
          by (simp add: opened_def printf_def make_room_loop_apply)
        have o_count: "line_count ?o = line_count w + 1" by (simp add: opened_def printf_def)
        have o_heap: "allocs_succeed ?o = allocs_succeed w" by (simp add: opened_def printf_def allocs_succeed_def)
        have o_stdin: "stdin ?o = rest" by (simp add: opened_def printf_def)
        show ?thesis
        proof (cases "chomp buf" ?o rule: xstrdup_cases)
          case (fail w3)
          from insert_loop_step [OF fg notdot room fail(1), of] less.prems(1)
          have "pos' = pos" "w' = puts ''! alloc failed'' (w3\<lparr>lines := (lines w3)(pos := None)\<rparr>)"
            by auto
          with less.prems fail o_count o_heap room show ?thesis
            by (auto simp: puts_def count_ok_def)
        next
          case (ok w3)
          let ?w4 = "w3\<lparr>lines := (lines w3)(pos := Some (chomp buf))\<rparr>"
          from insert_loop_step [OF fg notdot room ok(1)] less.prems(1)
          have rec: "insert_loop (pos + 1) ?w4 = (pos', w')" by simp
          have shorter: "length (stdin ?w4) < length (stdin w)"
            using fgets_shorter [OF fg] ok(5) o_stdin by (simp add: LINE_LEN_def)
          have c4: "count_ok ?w4" using less.prems(2) room ok(4) o_count by (simp add: count_ok_def)
          have p4: "0 \<le> pos + 1" "pos + 1 \<le> line_count ?w4"
            using less.prems(3,4) ok(4) o_count by simp_all
          note IH = less.hyps [OF shorter rec c4 p4]
          have s4: "store_ok w \<and> allocs_succeed w \<longrightarrow> store_ok ?w4 \<and> allocs_succeed ?w4"
            using ok(2,3,4) o_lines o_count o_heap less.prems(3,4)
            by (auto simp: store_ok_iff allocs_succeed_def)
          from IH s4 show ?thesis by auto
        qed
      qed
    qed
  qed
qed


lemma insert_loop_frame:
  assumes "insert_loop pos w = (pos', w')"
  shows "(\<exists>more. console w' = console w @ Out (fmt_05d (pos + 1) @ '': '') # more)
       \<and> (\<forall>j < pos. lines w' j = lines w j)"
  using assms
proof (induction "length (stdin w)" arbitrary: pos w rule: less_induct)
  case less
  show ?case
  proof (cases "fgets LINE_LEN (stdin w)")
    case None
    with less.prems insert_loop_eof [OF None, of pos] show ?thesis
      by (auto simp: printf_def)
  next
    case (Some br)
    obtain buf rest where br: "br = (buf, rest)" by (cases br)
    note fg = Some [unfolded br]
    show ?thesis
    proof (cases "chomp buf = ''.''")
      case True
      with less.prems insert_loop_dot [OF fg True, of pos] show ?thesis
        by (auto simp: printf_def)
    next
      case notdot: False
      show ?thesis
      proof (cases "line_count w < MAX_LINES")
        case False
        from less.prems fg notdot False show ?thesis
          by (subst (asm) insert_loop.simps) (auto simp: Let_def printf_def puts_def make_room_def)
      next
        case room: True
        let ?o = "opened pos rest w"
        have o_lines: "\<And>j. lines ?o j = (if pos + 1 \<le> j \<and> j \<le> line_count w then lines w (j - 1) else lines w j)"
          by (simp add: opened_def printf_def make_room_loop_apply)
        have o_stdin: "stdin ?o = rest" by (simp add: opened_def printf_def)
        have o_console: "console ?o = console w @ [Out (fmt_05d (pos + 1) @ '': '')]"
          by (simp add: opened_def printf_def)
        obtain p w3 where x: "xstrdup (chomp buf) ?o = (p, w3)" by (cases "xstrdup (chomp buf) ?o")
        then have w3: "lines w3 = lines ?o" "stdin w3 = stdin ?o" "console w3 = console ?o"
          by (auto simp: xstrdup_def malloc_def split: list.splits bool.splits)
        let ?w4 = "w3\<lparr>lines := (lines w3)(pos := p)\<rparr>"
        show ?thesis
        proof (cases "p = None")
          case True
          from insert_loop_step [OF fg notdot room x] less.prems True
          have "w' = puts ''! alloc failed'' ?w4" by simp
          then show ?thesis using w3 o_lines o_console by (auto simp: puts_def)
        next
          case False
          from insert_loop_step [OF fg notdot room x] less.prems False
          have rec: "insert_loop (pos + 1) ?w4 = (pos', w')" by simp
          have shorter: "length (stdin ?w4) < length (stdin w)"
            using fgets_shorter [OF fg] w3 o_stdin by (simp add: LINE_LEN_def)
          note IH = less.hyps [OF shorter rec]
          from IH w3 o_lines o_console show ?thesis by auto
        qed
      qed
    qed
  qed
qed

lemma insert_loop_first:
  assumes "fgets LINE_LEN (stdin w) = Some (buf, rest)" "chomp buf \<noteq> ''.''"
    and "line_count w < MAX_LINES" and "allocs_succeed w" and "insert_loop pos w = (pos', w')"
  shows "lines w' pos = Some (chomp buf)"
proof -
  let ?o = "opened pos rest w"
  have "allocs_succeed ?o" using assms(4) by (simp add: opened_def printf_def allocs_succeed_def)
  then obtain w3 where x: "xstrdup (chomp buf) ?o = (Some (chomp buf), w3)"
    by (cases "chomp buf" ?o rule: xstrdup_cases) auto
  let ?w4 = "w3\<lparr>lines := (lines w3)(pos := Some (chomp buf))\<rparr>"
  from insert_loop_step [OF assms(1,2,3) x] assms(5)
  have "insert_loop (pos + 1) ?w4 = (pos', w')" by simp
  from insert_loop_frame [OF this] have "lines w' pos = lines ?w4 pos" by simp
  then show ?thesis by simp
qed

text \<open>
  C5, as amended. \<open>cmd_insert\<close> inserts at position \<open>n\<close> when \<open>1 \<le> n \<le> line_count + 1\<close>
  and at the end of the document, \<open>line_count + 1\<close>, for every other \<open>n\<close>: a start below
  1 is not clamped to 1. The position is what the banner names (less one), what
  \<open>last_a\<close> records, and the display number of the first line accepted. With no
  argument the \<open>I\<close> command passes \<open>line_count + 1\<close>.
\<close>

theorem cmd_insert_position:
  "(let n1 = (if 1 \<le> n \<and> n \<le> line_count w + 1 then n else line_count w + 1) in
      last_a (cmd_insert n w) = n1
    \<and> (\<exists>more. console (cmd_insert n w)
          = console w @ Out (''-- Insert at  Line '' @ fmt_05d (n1 - 1) @ ''  --\<newline>'') # more)
    \<and> (fgets LINE_LEN (stdin w) = Some (buf, rest) \<and> chomp buf \<noteq> ''.''
         \<and> line_count w < MAX_LINES \<and> allocs_succeed w
        \<longrightarrow> lines (cmd_insert n w) (n1 - 1) = Some (chomp buf))
    \<and> (0 \<le> line_count w \<longrightarrow> 1 \<le> n1 \<and> n1 \<le> line_count w + 1))
   \<and> command (CHR ''I'') [] w = Next (cmd_insert (line_count w + 1) w)"
proof -
  define n1 where "n1 = (if 1 \<le> n \<and> n \<le> line_count w + 1 then n else line_count w + 1)"
  define w1 where "w1 = printf (''-- Insert at  Line '' @ fmt_05d (n1 - 1) @ ''  --'' @ [LF]) w"
  obtain pos' w2 where il: "insert_loop (n1 - 1) w1 = (pos', w2)" by (cases "insert_loop (n1 - 1) w1")
  have n1': "(if n < 1 \<or> n > line_count w + 1 then line_count w + 1 else n) = n1"
    by (auto simp: n1_def)
  have "cmd_insert n w
      = (case insert_loop (n1 - 1) w1 of (pos, w2) \<Rightarrow> w2\<lparr>last_a := n1, last_b := pos\<rparr>)"
    unfolding cmd_insert_def Let_def n1' w1_def ..
  then have ci: "cmd_insert n w = w2\<lparr>last_a := n1, last_b := pos'\<rparr>"
    using il by simp
  have a: "last_a (cmd_insert n w) = n1" by (simp add: ci)
  from insert_loop_frame [OF il] obtain more where
    "console w2 = console w1 @ Out (fmt_05d (n1 - 1 + 1) @ '': '') # more" by blast
  then have b: "\<exists>more. console (cmd_insert n w)
          = console w @ Out (''-- Insert at  Line '' @ fmt_05d (n1 - 1) @ ''  --\<newline>'') # more"
    by (simp add: ci w1_def printf_def LF_def)
  have c: "fgets LINE_LEN (stdin w) = Some (buf, rest) \<and> chomp buf \<noteq> ''.''
         \<and> line_count w < MAX_LINES \<and> allocs_succeed w
        \<longrightarrow> lines (cmd_insert n w) (n1 - 1) = Some (chomp buf)"
  proof
    assume h: "fgets LINE_LEN (stdin w) = Some (buf, rest) \<and> chomp buf \<noteq> ''.''
         \<and> line_count w < MAX_LINES \<and> allocs_succeed w"
    then have "fgets LINE_LEN (stdin w1) = Some (buf, rest)" "line_count w1 < MAX_LINES"
      "allocs_succeed w1" by (simp_all add: w1_def printf_def allocs_succeed_def)
    from insert_loop_first [OF this(1) _ this(2,3) il] h show "lines (cmd_insert n w) (n1 - 1) = Some (chomp buf)"
      by (simp add: ci)
  qed
  have d: "0 \<le> line_count w \<longrightarrow> 1 \<le> n1 \<and> n1 \<le> line_count w + 1" by (auto simp: n1_def)
  have e: "command (CHR ''I'') [] w = Next (cmd_insert (line_count w + 1) w)"
    by (simp add: command_def)
  from a b c d e show ?thesis unfolding n1_def Let_def by blast
qed

theorem cmd_insert_position_witness:
  "fgets LINE_LEN (stdin three_lines) = Some (''x\<newline>'', ''.\<newline>'') \<and> chomp ''x\<newline>'' \<noteq> ''.''
   \<and> line_count three_lines < MAX_LINES \<and> allocs_succeed three_lines \<and> 0 \<le> line_count three_lines
   \<and> last_a (cmd_insert 2 three_lines) = 2
   \<and> lines (cmd_insert 2 three_lines) 1 = Some ''x''"
proof -
  have h: "fgets LINE_LEN (stdin three_lines) = Some (''x\<newline>'', ''.\<newline>'') \<and> chomp ''x\<newline>'' \<noteq> ''.''
   \<and> line_count three_lines < MAX_LINES \<and> allocs_succeed three_lines \<and> 0 \<le> line_count three_lines"
    by (simp add: three_lines_def world0_def fgets_def LINE_LEN_def LF_def NUL_def chomp_def CR_def
        MAX_LINES_def allocs_succeed_def)
  from cmd_insert_position [of 2 three_lines "''x\<newline>''" "''.\<newline>''"] h
  show ?thesis by (simp add: Let_def three_lines_def chomp_def LF_def CR_def)
qed

text \<open>
  The claim as stated fails for \<open>n < 1\<close>: on three lines, a start of 0 clamped into
  \<open>[1, 4]\<close> would be 1, and the line is inserted at position 4.
\<close>

theorem cmd_insert_position_counterexample:
  "line_count three_lines = 3 \<and> max 1 (min 0 (line_count three_lines + 1)) = 1
   \<and> last_a (cmd_insert 0 three_lines) = 4
   \<and> map (lines (cmd_insert 0 three_lines)) [0, 1, 2, 3] = [Some ''a'', Some ''b'', Some ''c'', Some ''x'']"
  by (simp add: three_lines_def world0_def cmd_insert_def insert_loop.simps Let_def printf_def fgets_def
      LINE_LEN_def LF_def NUL_def CR_def chomp_def make_room_def MAX_LINES_def make_room_loop.simps
      xstrdup_def malloc_def)


lemma free_lines_apply:
  "lines (free_lines i hi w) j
     = (if i \<le> j \<and> j \<le> hi \<and> 0 \<le> j \<and> j < line_count w then None else lines w j)
   \<and> line_count (free_lines i hi w) = line_count w
   \<and> heap (free_lines i hi w) = heap w"
proof (induction i hi w rule: free_lines.induct)
  case (1 i hi w)
  show ?case
  proof (cases "i \<le> hi")
    case True
    have "free_lines i hi w = free_lines (i + 1) hi (free_line i w)"
      using True by (subst free_lines.simps) simp
    with "1.IH" [OF True] True show ?thesis by (auto simp: free_line_def)
  next
    case False
    then show ?thesis by (subst free_lines.simps, subst free_lines.simps, subst free_lines.simps) auto
  qed
qed

lemma cmd_delete_cases:
  "cmd_delete a b w = w
   \<or> (\<exists>start count. 0 \<le> start \<and> 1 \<le> count \<and> start + count \<le> line_count w
        \<and> cmd_delete a b w
            = (close_gap start count (free_lines start (start + count - 1) w))
                \<lparr>last_a := start + 1,
                 last_b := (if start + 1 \<le> line_count w - count then start + 1
                            else line_count w - count)\<rparr>)"
proof -
  obtain a1 b1 where r: "to_range_defaults a b w = (a1, b1)" by (cases "to_range_defaults a b w")
  define a2 where "a2 = (if a1 < 1 then 1 else a1)"
  define b2 where "b2 = (if b1 > line_count w then line_count w else b1)"
  show ?thesis
  proof (cases "line_count w = 0 \<or> a2 > b2")
    case True
    then have "cmd_delete a b w = w" by (auto simp: cmd_delete_def r Let_def a2_def b2_def)
    then show ?thesis ..
  next
    case False
    have bounds: "0 \<le> a2 - 1" "1 \<le> b2 - a2 + 1" "a2 - 1 + (b2 - a2 + 1) \<le> line_count w"
      using False by (auto simp: a2_def b2_def)
    have "cmd_delete a b w
        = (close_gap (a2 - 1) (b2 - a2 + 1) (free_lines (a2 - 1) (a2 - 1 + (b2 - a2 + 1) - 1) w))
            \<lparr>last_a := a2 - 1 + 1,
             last_b := (if a2 - 1 + 1 \<le> line_count w - (b2 - a2 + 1) then a2 - 1 + 1
                        else line_count w - (b2 - a2 + 1))\<rparr>"
      using False by (auto simp: cmd_delete_def r Let_def a2_def b2_def close_gap_def free_lines_apply)
    with bounds show ?thesis by blast
  qed
qed

lemma cmd_delete_inv:
  "(count_ok w \<longrightarrow> count_ok (cmd_delete a b w)) \<and> (store_ok w \<longrightarrow> store_ok (cmd_delete a b w))"
proof -
  from cmd_delete_cases [of a b w] show ?thesis
  proof
    assume "cmd_delete a b w = w"
    then show ?thesis by simp
  next
    assume "\<exists>start count. 0 \<le> start \<and> 1 \<le> count \<and> start + count \<le> line_count w
        \<and> cmd_delete a b w
            = (close_gap start count (free_lines start (start + count - 1) w))
                \<lparr>last_a := start + 1,
                 last_b := (if start + 1 \<le> line_count w - count then start + 1
                            else line_count w - count)\<rparr>"
    then obtain start count where b: "0 \<le> start" "1 \<le> count" "start + count \<le> line_count w"
      and c: "cmd_delete a b w
            = (close_gap start count (free_lines start (start + count - 1) w))
                \<lparr>last_a := start + 1,
                 last_b := (if start + 1 \<le> line_count w - count then start + 1
                            else line_count w - count)\<rparr>" by blast
    have lc: "line_count (cmd_delete a b w) = line_count w - count"
      by (simp add: c close_gap_def free_lines_apply)
    have ls: "\<And>j. lines (cmd_delete a b w) j
        = (if start \<le> j \<and> j + count < line_count w
           then lines (free_lines start (start + count - 1) w) (j + count)
           else lines (free_lines start (start + count - 1) w) j)"
      using b by (simp add: c close_gap_def close_gap_loop_apply free_lines_apply)
    have "count_ok w \<longrightarrow> count_ok (cmd_delete a b w)"
      using b lc by (simp add: count_ok_def)
    moreover have "store_ok w \<longrightarrow> store_ok (cmd_delete a b w)"
      using b lc by (auto simp: store_ok_iff ls free_lines_apply)
    ultimately show ?thesis ..
  qed
qed

lemma cmd_edit_inv:
  "line_count (cmd_edit n w) = line_count w
   \<and> (store_ok w \<and> allocs_succeed w \<longrightarrow> store_ok (cmd_edit n w))"
proof (cases "n < 1 \<or> n > line_count w")
  case True
  then show ?thesis by (auto simp: cmd_edit_def puts_def store_ok_iff)
next
  case inr: False
  let ?w2 = "printf (fmt_05d n @ '': '')
      (printf (fmt_05d (n - 1) @ '': '' @ str_or_empty (lines w (n - 1)) @ [LF]) w)"
  show ?thesis
  proof (cases "fgets LINE_LEN (stdin ?w2)")
    case None
    with inr show ?thesis by (auto simp: cmd_edit_def Let_def printf_def store_ok_iff)
  next
    case (Some br)
    obtain buf rest where br: "br = (buf, rest)" by (cases br)
    let ?w3 = "free_line (n - 1) (?w2\<lparr>stdin := rest\<rparr>)"
    have w3: "line_count ?w3 = line_count w" "\<And>j. j \<noteq> n - 1 \<Longrightarrow> lines ?w3 j = lines w j"
      "allocs_succeed ?w3 = allocs_succeed w"
      by (auto simp: free_line_def printf_def allocs_succeed_def)
    show ?thesis
    proof (cases "chomp buf" ?w3 rule: xstrdup_cases)
      case (fail w4)
      with inr Some br w3 show ?thesis
        by (auto simp: cmd_edit_def Let_def puts_def)
    next
      case (ok w4)
      with inr Some br w3 show ?thesis
        by (auto simp: cmd_edit_def Let_def store_ok_iff)
    qed
  qed
qed

lemma make_room_ok:
  assumes "0 < count" "line_count w + count \<le> MAX_LINES"
  shows "\<exists>w'. make_room pos count w = (True, w') \<and> line_count w' = line_count w + count
      \<and> (\<forall>j. lines w' j = (if pos + count \<le> j \<and> j < line_count w + count
                             then lines w (j - count) else lines w j))"
  using assms by (auto simp: make_room_def make_room_loop_apply)


lemma load_loop_inv:
  assumes "load_loop f w = (r, w')" "0 \<le> line_count w" "line_count w < MAX_LINES"
  shows "count_ok w' \<and> (store_ok w \<longrightarrow> store_ok w')"
  using assms
proof (induction "length f" arbitrary: f w rule: less_induct)
  case less
  show ?case
  proof (cases "fgets LINE_LEN f")
    case None
    with less.prems show ?thesis
      by (subst (asm) load_loop.simps) (auto simp: count_ok_def)
  next
    case (Some br)
    obtain buf rest where br: "br = (buf, rest)" by (cases br)
    note fg = Some [unfolded br]
    show ?thesis
    proof (cases "chomp buf" w rule: xstrdup_cases)
      case (fail w1)
      with less.prems fg show ?thesis
        by (subst (asm) load_loop.simps) (auto simp: Let_def count_ok_def store_ok_iff)
    next
      case (ok w1)
      let ?w3 = "w1\<lparr>lines := (lines w1)(line_count w1 \<mapsto> chomp buf), line_count := line_count w1 + 1\<rparr>"
      have c3: "line_count ?w3 = line_count w + 1" using ok by simp
      have s3: "store_ok w \<longrightarrow> store_ok ?w3" using ok by (auto simp: store_ok_iff)
      show ?thesis
      proof (cases "line_count ?w3 \<ge> MAX_LINES")
        case True
        with less.prems fg ok have "w' = ?w3"
          by (subst (asm) load_loop.simps) (auto simp: Let_def)
        with s3 c3 less.prems True show ?thesis by (auto simp: count_ok_def)
      next
        case False
        with less.prems fg ok have rec: "load_loop rest ?w3 = (r, w')"
          by (subst (asm) load_loop.simps) (auto simp: Let_def)
        have "length rest < length f" using fgets_shorter [OF fg] by (simp add: LINE_LEN_def)
        from less.hyps [OF this rec] c3 False less.prems s3 show ?thesis by auto
      qed
    qed
  qed
qed

lemma load_file_inv:
  "(count_ok w \<longrightarrow> count_ok (snd (load_file name w)))
   \<and> (store_ok w \<longrightarrow> store_ok (snd (load_file name w)))"
proof (cases "files w name")
  case None
  then show ?thesis by (simp add: load_file_def)
next
  case (Some f)
  let ?w2 = "(free_lines 0 (line_count w - 1) w)\<lparr>line_count := 0\<rparr>"
  obtain r w3 where l: "load_loop f ?w2 = (r, w3)" by (cases "load_loop f ?w2")
  have "store_ok ?w2" by (simp add: store_ok_def)
  with load_loop_inv [OF l] have "count_ok w3 \<and> store_ok w3" by (simp add: MAX_LINES_def)
  then show ?thesis using Some l
    by (cases r) (auto simp: load_file_def Let_def count_ok_def store_ok_iff)
qed

lemma ensure_line_exists_inv:
  "(count_ok w \<longrightarrow> count_ok (ensure_line_exists idx w))
   \<and> (store_ok w \<longrightarrow> store_ok (ensure_line_exists idx w))
   \<and> line_count w \<le> line_count (ensure_line_exists idx w)
   \<and> (\<forall>j < line_count w. lines (ensure_line_exists idx w) j = lines w j)"
proof (induction "nat (idx + 1 - line_count w)" arbitrary: w rule: less_induct)
  case less
  show ?case
  proof (cases "line_count w \<le> idx \<and> line_count w < MAX_LINES")
    case False
    then have "ensure_line_exists idx w = w" by (subst ensure_line_exists.simps) auto
    then show ?thesis by simp
  next
    case True
    show ?thesis
    proof (cases "[]::string" w rule: xstrdup_cases)
      case (fail w1)
      with True have "ensure_line_exists idx w = w1\<lparr>lines := (lines w1)(line_count w1 := None)\<rparr>"
        by (subst ensure_line_exists.simps) auto
      with fail show ?thesis by (auto simp: count_ok_def store_ok_iff)
    next
      case (ok w1)
      let ?w3 = "w1\<lparr>lines := (lines w1)(line_count w1 \<mapsto> []), line_count := line_count w1 + 1\<rparr>"
      from ok True have e: "ensure_line_exists idx w = ensure_line_exists idx ?w3"
        by (subst ensure_line_exists.simps) auto
      have "nat (idx + 1 - line_count ?w3) < nat (idx + 1 - line_count w)" using ok True by simp
      from less.hyps [OF this] ok True show ?thesis
        unfolding e by (auto simp: count_ok_def store_ok_iff)
    qed
  qed
qed

lemma line_at_Some: "line_at w i = Some s \<Longrightarrow> 0 \<le> i \<and> i < MAX_LINES \<and> lines w i = Some s"
  by (auto simp: line_at_def split: if_splits)

lemma malloc_frame:
  "malloc w = (r, w1) \<Longrightarrow> lines w1 = lines w \<and> line_count w1 = line_count w
     \<and> cursor_row w1 = cursor_row w \<and> cursor_col w1 = cursor_col w"
  by (auto simp: malloc_def split: list.splits)

lemma insert_char_count:
  assumes "insert_char c w = Some w'" "count_ok w"
  shows "count_ok w'"
proof -
  let ?w1 = "ensure_line_exists (cursor_row w) w"
  have c1: "count_ok ?w1" using assms(2) ensure_line_exists_inv by blast
  have "line_count w' = line_count ?w1"
    using assms(1)
    by (auto simp: insert_char_def Let_def split: option.splits if_splits prod.splits bool.splits
        dest!: malloc_frame)
  with c1 show ?thesis by (simp add: count_ok_def)
qed

lemma delete_char_count:
  assumes "delete_char w = Some w'" "count_ok w"
  shows "count_ok w' \<and> (line_count w' = line_count w
      \<or> (line_count w' = line_count w - 1 \<and> 0 \<le> cursor_row w \<and> cursor_row w + 1 < line_count w))"
  using assms
  by (auto simp: delete_char_def Let_def close_gap_def free_line_def count_ok_def
      split: option.splits if_splits prod.splits bool.splits dest!: malloc_frame line_at_Some)

lemma backspace_char_count:
  assumes "backspace_char w = Some w'" "count_ok w"
  shows "count_ok w'"
proof -
  show ?thesis
  proof (cases "cursor_col w > 0")
    case True
    with assms(1) have "delete_char (w\<lparr>cursor_col := cursor_col w - 1\<rparr>) = Some w'"
      by (simp add: backspace_char_def)
    from delete_char_count [OF this] assms(2) show ?thesis by (simp add: count_ok_def)
  next
    case c0: False
    show ?thesis
    proof (cases "cursor_row w > 0")
      case True
      show ?thesis
      proof (cases "line_at w (cursor_row w - 1)")
        case None
        with c0 True assms(1) show ?thesis by (simp add: backspace_char_def)
      next
        case (Some line)
        with c0 True assms(1) have
          "delete_char (w\<lparr>cursor_row := cursor_row w - 1, cursor_col := int (length line)\<rparr>) = Some w'"
          by (simp add: backspace_char_def)
        from delete_char_count [OF this] assms(2) show ?thesis by (simp add: count_ok_def)
      qed
    next
      case False
      with c0 assms show ?thesis by (simp add: backspace_char_def)
    qed
  qed
qed

lemma insert_newline_count:
  assumes "insert_newline w = Some w'" "count_ok w"
  shows "count_ok w'"
proof -
  let ?w1 = "ensure_line_exists (cursor_row w) w"
  have c1: "count_ok ?w1" using assms(2) ensure_line_exists_inv by blast
  have "line_count w' = line_count ?w1 \<or> (line_count ?w1 < MAX_LINES \<and> line_count w' = line_count ?w1 + 1)"
    using assms(1)
    by (auto simp: insert_newline_def Let_def make_room_def
        split: option.splits if_splits prod.splits bool.splits dest!: malloc_frame)
  with c1 show ?thesis by (auto simp: count_ok_def)
qed


lemma cmd_insert_inv:
  assumes "count_ok w"
  shows "count_ok (cmd_insert n w) \<and> (store_ok w \<and> allocs_succeed w \<longrightarrow> store_ok (cmd_insert n w))"
proof -
  define n1 where "n1 = (if n < 1 \<or> n > line_count w + 1 then line_count w + 1 else n)"
  define w1 where "w1 = printf (''-- Insert at  Line '' @ fmt_05d (n1 - 1) @ ''  --'' @ [LF]) w"
  obtain pos' w2 where il: "insert_loop (n1 - 1) w1 = (pos', w2)" by (cases "insert_loop (n1 - 1) w1")
  have "cmd_insert n w
      = (case insert_loop (n1 - 1) w1 of (pos, w2) \<Rightarrow> w2\<lparr>last_a := n1, last_b := pos\<rparr>)"
    unfolding cmd_insert_def Let_def n1_def w1_def ..
  then have ci: "cmd_insert n w = w2\<lparr>last_a := n1, last_b := pos'\<rparr>" using il by simp
  have w1: "count_ok w1" "0 \<le> n1 - 1" "n1 - 1 \<le> line_count w1"
    "store_ok w1 = store_ok w" "allocs_succeed w1 = allocs_succeed w"
    using assms by (auto simp: w1_def n1_def printf_def count_ok_def store_ok_iff allocs_succeed_def)
  from insert_loop_inv [OF il w1(1,2,3)] w1(4,5) show ?thesis
    by (auto simp: ci count_ok_def store_ok_iff)
qed

text \<open>
  What the operations keep as long as no allocation fails. A \<open>make_room\<close> that
  fails for lack of capacity returns the state unchanged, \<open>line_count\<close> included;
  one that succeeds on a store without null lines leaves a null-free store outside
  the gap it opened, which the caller fills. When no allocation fails, \<open>cmd_insert\<close>
  and \<open>cmd_edit\<close> keep every slot below \<open>line_count\<close> non-null, also when the insert
  stops for lack of capacity; \<open>cmd_edit\<close> never changes \<open>line_count\<close>; \<open>cmd_delete\<close>
  and \<open>load_file\<close> keep the store null-free.
\<close>

theorem store_invariant:
  "(0 < count \<and> MAX_LINES < line_count w + count \<and> line_count w + count \<le> 32767
      \<longrightarrow> make_room pos count w = (False, w))
   \<and> (0 < count \<and> line_count w + count \<le> MAX_LINES \<and> 0 \<le> pos \<and> pos \<le> line_count w \<and> store_ok w
      \<longrightarrow> (\<exists>w'. make_room pos count w = (True, w') \<and> line_count w' = line_count w + count
            \<and> (\<forall>j. 0 \<le> j \<and> j < line_count w' \<and> \<not> (pos \<le> j \<and> j < pos + count)
                  \<longrightarrow> lines w' j \<noteq> None)))
   \<and> (count_ok w \<and> store_ok w \<and> allocs_succeed w \<longrightarrow> store_ok (cmd_insert n w))
   \<and> (store_ok w \<and> allocs_succeed w \<longrightarrow> store_ok (cmd_edit n w))
   \<and> line_count (cmd_edit n w) = line_count w
   \<and> (store_ok w \<longrightarrow> store_ok (cmd_delete a b w))
   \<and> (store_ok w \<longrightarrow> store_ok (snd (load_file name w)))"
proof -
  have 1: "0 < count \<and> MAX_LINES < line_count w + count \<and> line_count w + count \<le> 32767
      \<longrightarrow> make_room pos count w = (False, w)"
    by (simp add: make_room_full)
  have 2: "0 < count \<and> line_count w + count \<le> MAX_LINES \<and> 0 \<le> pos \<and> pos \<le> line_count w \<and> store_ok w
      \<longrightarrow> (\<exists>w'. make_room pos count w = (True, w') \<and> line_count w' = line_count w + count
            \<and> (\<forall>j. 0 \<le> j \<and> j < line_count w' \<and> \<not> (pos \<le> j \<and> j < pos + count)
                  \<longrightarrow> lines w' j \<noteq> None))"
  proof
    assume h: "0 < count \<and> line_count w + count \<le> MAX_LINES \<and> 0 \<le> pos \<and> pos \<le> line_count w \<and> store_ok w"
    then obtain w' where m: "make_room pos count w = (True, w')" "line_count w' = line_count w + count"
      "\<forall>j. lines w' j = (if pos + count \<le> j \<and> j < line_count w + count
                             then lines w (j - count) else lines w j)"
      using make_room_ok [of count w pos] by blast
    have "\<forall>j. 0 \<le> j \<and> j < line_count w' \<and> \<not> (pos \<le> j \<and> j < pos + count) \<longrightarrow> lines w' j \<noteq> None"
      using h m(2,3) by (auto simp: store_ok_iff)
    with m show "\<exists>w'. make_room pos count w = (True, w') \<and> line_count w' = line_count w + count
            \<and> (\<forall>j. 0 \<le> j \<and> j < line_count w' \<and> \<not> (pos \<le> j \<and> j < pos + count)
                  \<longrightarrow> lines w' j \<noteq> None)" by blast
  qed
  have 3: "count_ok w \<and> store_ok w \<and> allocs_succeed w \<longrightarrow> store_ok (cmd_insert n w)"
    using cmd_insert_inv by blast
  note 4 = cmd_edit_inv [of n w]
  have 5: "store_ok w \<longrightarrow> store_ok (cmd_delete a b w)" using cmd_delete_inv by blast
  have 6: "store_ok w \<longrightarrow> store_ok (snd (load_file name w))" using load_file_inv by blast
  from 1 2 3 4 5 6 show ?thesis by blast
qed

text \<open>
  C10. Every operation that changes the line store keeps \<open>0 \<le> line_count \<le> MAX_LINES\<close>:
  \<open>make_room\<close>, \<open>cmd_delete\<close>, the join in \<open>delete_char\<close> (also through
  \<open>backspace_char\<close>), \<open>ensure_line_exists\<close>, \<open>load_file\<close>, and with them \<open>cmd_insert\<close>,
  \<open>insert_char\<close> and \<open>insert_newline\<close>. \<open>close_gap\<close> keeps the bounds for a count
  between 0 and \<open>line_count\<close>, and its callers stay inside: \<open>cmd_delete\<close> either does
  nothing or closes \<open>count \<ge> 1\<close> lines from \<open>start \<ge> 0\<close> with
  \<open>start + count \<le> line_count\<close>, and the join closes one line only when a line
  follows the cursor row.
\<close>

theorem line_count_bounds:
  "(count_ok w \<longrightarrow> count_ok (snd (make_room pos count w)))
   \<and> (count_ok w \<and> 0 \<le> count \<and> count \<le> line_count w \<longrightarrow> count_ok (close_gap start count w))
   \<and> (count_ok w \<longrightarrow> count_ok (cmd_delete a b w))
   \<and> (cmd_delete a b w = w
       \<or> (\<exists>start count. 0 \<le> start \<and> 1 \<le> count \<and> start + count \<le> line_count w
            \<and> cmd_delete a b w
                = (close_gap start count (free_lines start (start + count - 1) w))
                    \<lparr>last_a := start + 1,
                     last_b := (if start + 1 \<le> line_count w - count then start + 1
                                else line_count w - count)\<rparr>))
   \<and> (count_ok w \<and> delete_char w = Some w' \<longrightarrow>
        count_ok w' \<and> (line_count w' = line_count w
          \<or> (line_count w' = line_count w - 1 \<and> 0 \<le> cursor_row w \<and> cursor_row w + 1 < line_count w)))
   \<and> (count_ok w \<and> backspace_char w = Some w' \<longrightarrow> count_ok w')
   \<and> (count_ok w \<longrightarrow> count_ok (ensure_line_exists idx w))
   \<and> (count_ok w \<longrightarrow> count_ok (snd (load_file name w)))
   \<and> (count_ok w \<longrightarrow> count_ok (cmd_insert n w))
   \<and> (count_ok w \<and> insert_char c w = Some w' \<longrightarrow> count_ok w')
   \<and> (count_ok w \<and> insert_newline w = Some w' \<longrightarrow> count_ok w')"
proof -
  have 1: "count_ok w \<longrightarrow> count_ok (snd (make_room pos count w))"
    by (auto simp: make_room_def count_ok_def)
  have 2: "count_ok w \<and> 0 \<le> count \<and> count \<le> line_count w \<longrightarrow> count_ok (close_gap start count w)"
    by (auto simp: close_gap_def count_ok_def)
  have 3: "count_ok w \<longrightarrow> count_ok (cmd_delete a b w)" using cmd_delete_inv by blast
  note 4 = cmd_delete_cases [of a b w]
  have 5: "count_ok w \<and> delete_char w = Some w' \<longrightarrow>
        count_ok w' \<and> (line_count w' = line_count w
          \<or> (line_count w' = line_count w - 1 \<and> 0 \<le> cursor_row w \<and> cursor_row w + 1 < line_count w))"
    using delete_char_count by blast
  have 6: "count_ok w \<and> backspace_char w = Some w' \<longrightarrow> count_ok w'"
    using backspace_char_count by blast
  have 7: "count_ok w \<longrightarrow> count_ok (ensure_line_exists idx w)"
    using ensure_line_exists_inv by blast
  have 8: "count_ok w \<longrightarrow> count_ok (snd (load_file name w))" using load_file_inv by blast
  have 9: "count_ok w \<longrightarrow> count_ok (cmd_insert n w)" using cmd_insert_inv by blast
  have 10: "count_ok w \<and> insert_char c w = Some w' \<longrightarrow> count_ok w'"
    using insert_char_count by blast
  have 11: "count_ok w \<and> insert_newline w = Some w' \<longrightarrow> count_ok w'"
    using insert_newline_count by blast
  from 1 2 3 4 5 6 7 8 9 10 11 show ?thesis by blast
qed

theorem store_invariant_witness:
  "count_ok three_lines \<and> store_ok three_lines \<and> allocs_succeed three_lines
   \<and> 0 < (1::int) \<and> line_count three_lines + 1 \<le> MAX_LINES
   \<and> 0 \<le> (1::int) \<and> 1 \<le> line_count three_lines
   \<and> store_ok (cmd_insert 2 three_lines) \<and> store_ok (cmd_edit 2 three_lines)
   \<and> line_count (cmd_edit 2 three_lines) = line_count three_lines
   \<and> store_ok (cmd_delete 1 2 three_lines)
   \<and> (\<exists>w'. make_room 1 1 three_lines = (True, w') \<and> line_count w' = line_count three_lines + 1)"
proof -
  have s: "store_ok three_lines"
    by (auto simp: three_lines_def world0_def store_ok_iff)
  have h: "count_ok three_lines \<and> allocs_succeed three_lines
     \<and> 0 < (1::int) \<and> line_count three_lines + 1 \<le> MAX_LINES
     \<and> 0 \<le> (1::int) \<and> 1 \<le> line_count three_lines"
    by (simp add: three_lines_def world0_def count_ok_def allocs_succeed_def MAX_LINES_def)
  from store_invariant [of 1 three_lines 1 2 1 2 "[]"] h s show ?thesis by blast
qed

lemma insert_loop_alloc_fail:
  assumes "fgets LINE_LEN (stdin w) = Some (buf, rest)" "chomp buf \<noteq> ''.''"
    and "line_count w < MAX_LINES" and "heap w = False # h"
  shows "insert_loop pos w =
    (pos, puts ''! alloc failed''
            ((opened pos rest w)\<lparr>heap := h, lines := (lines (opened pos rest w))(pos := None)\<rparr>))"
proof -
  have "xstrdup (chomp buf) (opened pos rest w) = (None, (opened pos rest w)\<lparr>heap := h\<rparr>)"
    using assms(4) by (simp add: xstrdup_def malloc_def opened_def printf_def)
  from insert_loop_step [OF assms(1,2,3) this] show ?thesis by simp
qed

text \<open>
  C8. \<open>cmd_insert\<close> does not undo the shift when the allocation for the new line
  fails. \<open>make_room\<close> has then already added one to \<open>line_count\<close>, the slot takes the
  null pointer, and the loop ends with \<open>! alloc failed\<close>: on an empty document the
  failed insert leaves \<open>line_count = 1\<close> over a null slot. \<open>ensure_line_exists\<close> and
  \<open>load_file\<close> allocate first and count the line only when they have it. The
  fullscreen editor takes the length of every line below \<open>line_count\<close> without a
  test, so drawing the first row of this state is undefined.
\<close>

theorem cmd_insert_alloc_failure:
  "store_ok alloc_fails \<and> line_count alloc_fails = 0
   \<and> last (console (cmd_insert 1 alloc_fails)) = Out ''! alloc failed\<newline>''
   \<and> line_count (cmd_insert 1 alloc_fails) = 1
   \<and> lines (cmd_insert 1 alloc_fails) 0 = None
   \<and> \<not> store_ok (cmd_insert 1 alloc_fails)
   \<and> draw_row 0 (cmd_insert 1 alloc_fails) = None"
proof -
  define w1 where "w1 = printf (''-- Insert at  Line '' @ fmt_05d (1 - 1) @ ''  --'' @ [LF]) alloc_fails"
  have f: "fgets LINE_LEN (stdin w1) = Some (''x\<newline>'', ''.\<newline>'')" "chomp ''x\<newline>'' \<noteq> ''.''"
    "line_count w1 < MAX_LINES" "heap w1 = False # []"
    by (simp_all add: w1_def alloc_fails_def world0_def printf_def fgets_def LINE_LEN_def LF_def NUL_def
        CR_def chomp_def MAX_LINES_def)
  note il = insert_loop_alloc_fail [OF f, of "1 - 1"]
  have n1: "(if (1::int) < 1 \<or> 1 > line_count alloc_fails + 1 then line_count alloc_fails + 1 else 1) = 1"
    by (simp add: alloc_fails_def world0_def)
  have "cmd_insert 1 alloc_fails
      = (case insert_loop (1 - 1) w1 of (pos, w2) \<Rightarrow> w2\<lparr>last_a := 1, last_b := pos\<rparr>)"
    unfolding cmd_insert_def Let_def n1 w1_def ..
  also note il
  finally have ci: "cmd_insert 1 alloc_fails
     = (puts ''! alloc failed''
            ((opened (1 - 1) ''.\<newline>'' w1)\<lparr>heap := [],
               lines := (lines (opened (1 - 1) ''.\<newline>'' w1))(1 - 1 := None)\<rparr>))
         \<lparr>last_a := 1, last_b := 1 - 1\<rparr>"
    by simp
  have lc1: "line_count w1 = 0" by (simp add: w1_def printf_def alloc_fails_def world0_def)
  have 1: "store_ok alloc_fails \<and> line_count alloc_fails = 0"
    by (simp add: alloc_fails_def world0_def store_ok_def)
  have 2: "last (console (cmd_insert 1 alloc_fails)) = Out ''! alloc failed\<newline>''"
    by (simp add: ci puts_def LF_def)
  have 3: "line_count (cmd_insert 1 alloc_fails) = 1"
    by (simp add: ci puts_def opened_def printf_def lc1)
  have 4: "lines (cmd_insert 1 alloc_fails) 0 = None"
    by (simp add: ci puts_def)
  have 5: "\<not> store_ok (cmd_insert 1 alloc_fails)"
    using 3 4 by (auto simp: store_ok_iff)
  have tl1: "top_line w1 = 0" by (simp add: w1_def printf_def alloc_fails_def world0_def)
  have tl: "top_line (cmd_insert 1 alloc_fails) = 0"
    by (simp add: ci puts_def opened_def printf_def tl1)
  have 6: "draw_row 0 (cmd_insert 1 alloc_fails) = None"
    using 3 4 tl by (simp add: draw_row_def line_at_def Let_def MAX_LINES_def)
  from 1 2 3 4 5 6 show ?thesis by simp
qed

theorem line_count_bounds_witness:
  "count_ok join_state
   \<and> delete_char join_state = Some (the (delete_char join_state))
   \<and> line_count join_state = 3
   \<and> line_count (the (delete_char join_state)) = 2
   \<and> count_ok (the (delete_char join_state))
   \<and> count_ok (cmd_delete 2 3 join_state)
   \<and> count_ok (cmd_insert 1 join_state)"
proof -
  have c: "count_ok join_state \<and> line_count join_state = 3"
    by (simp add: join_state_def three_lines_def world0_def count_ok_def MAX_LINES_def)
  have d: "delete_char join_state \<noteq> None"
    by (simp add: join_state_def three_lines_def world0_def delete_char_def
        line_at_def malloc_def LINE_LEN_def MAX_LINES_def Let_def)
  then have h: "delete_char join_state = Some (the (delete_char join_state))" by simp
  have l: "line_count (the (delete_char join_state)) = 2"
    by (simp add: join_state_def three_lines_def world0_def delete_char_def Let_def
        line_at_def malloc_def LINE_LEN_def MAX_LINES_def close_gap_def free_line_def)
  from line_count_bounds [of join_state 0 1 0 2 3 "the (delete_char join_state)" 0 "[]" 1 "CHR ''x''"]
    c h l show ?thesis by blast
qed


subsection \<open>Fullscreen editor: split and join\<close>

lemma ensure_line_exists_present:
  "line_idx < line_count w \<Longrightarrow> ensure_line_exists line_idx w = w"
  by (subst ensure_line_exists.simps) simp

lemma document_eqI:
  "line_count w = line_count v \<Longrightarrow>
   (\<forall>i. 0 \<le> i \<and> i < line_count w \<longrightarrow> lines w i = lines v i) \<Longrightarrow> document w = document v"
  by (simp add: document_def)

lemma insert_newline_split:
  assumes "0 \<le> cursor_row w" "cursor_row w < line_count w" "line_count w < MAX_LINES"
    and "lines w (cursor_row w) = Some s" "0 \<le> cursor_col w" "cursor_col w \<le> int (length s)"
    and "length s < LINE_LEN" "allocs_succeed w"
  shows "insert_newline w =
     Some (w\<lparr>lines := (make_room_loop (line_count w - 1) (cursor_row w + 1) 1 (lines w))
                (cursor_row w \<mapsto> take (nat (cursor_col w)) s,
                 cursor_row w + 1 \<mapsto> drop (nat (cursor_col w)) s),
             line_count := line_count w + 1, heap := tl (heap w),
             cursor_row := cursor_row w + 1, cursor_col := 0\<rparr>)"
proof -
  let ?w3 = "w\<lparr>lines := make_room_loop (line_count w - 1) (cursor_row w + 1) 1 (lines w),
               line_count := line_count w + 1\<rparr>"
  have la: "line_at w (cursor_row w) = Some s" using assms by (simp add: line_at_def)
  have mr: "make_room (cursor_row w + 1) 1 w = (True, ?w3)" using assms by (simp add: make_room_def)
  have "allocs_succeed ?w3" using assms(8) by (simp add: allocs_succeed_def)
  from malloc_ok [OF this] have ma: "malloc ?w3 = (True, ?w3\<lparr>heap := tl (heap w)\<rparr>)" by simp
  show ?thesis
    using assms la mr ma
    by (simp add: insert_newline_def ensure_line_exists_present Let_def LINE_LEN_def)
qed


lemma delete_char_join:
  assumes "0 \<le> cursor_row w" "cursor_row w + 1 < line_count w" "line_count w \<le> MAX_LINES"
    and "lines w (cursor_row w) = Some l1" "lines w (cursor_row w + 1) = Some l2"
    and "cursor_col w \<ge> int (length l1)" "length l1 + length l2 < LINE_LEN" "allocs_succeed w"
  shows "delete_char w =
     Some (w\<lparr>lines := close_gap_loop (cursor_row w + 1) 1 (line_count w)
                         ((lines w)(cursor_row w \<mapsto> l1 @ l2, cursor_row w + 1 := None)),
             line_count := line_count w - 1, heap := tl (heap w)\<rparr>)"
proof -
  have la: "line_at w (cursor_row w) = Some l1" "line_at w (cursor_row w + 1) = Some l2"
    using assms by (simp_all add: line_at_def)
  note ma = malloc_ok [OF assms(8)]
  show ?thesis
    using assms la ma
    by (simp add: delete_char_def Let_def close_gap_def free_line_def)
qed

text \<open>
  C7. Let the cursor stand at column \<open>c\<close> of a line \<open>s\<close> (\<open>0 \<le> c \<le> length s\<close>, \<open>s\<close> of at
  most \<open>LINE_LEN - 1\<close> bytes), with room for one more line and no allocation
  failing, so that Enter does produce a new line. Then Enter splits \<open>s\<close> at \<open>c\<close> and
  puts the cursor at column 0 of the new line, and Backspace there restores the
  line \<open>s\<close>, \<open>line_count\<close>, the cursor \<open>(row, c)\<close> and the whole document.
\<close>

theorem split_join:
  assumes "0 \<le> cursor_row w" "cursor_row w < line_count w" "line_count w < MAX_LINES"
    and "lines w (cursor_row w) = Some s" "0 \<le> cursor_col w" "cursor_col w \<le> int (length s)"
    and "length s < LINE_LEN" "allocs_succeed w"
  shows "\<exists>w1 w2. insert_newline w = Some w1
       \<and> line_count w1 = line_count w + 1
       \<and> lines w1 (cursor_row w) = Some (take (nat (cursor_col w)) s)
       \<and> lines w1 (cursor_row w + 1) = Some (drop (nat (cursor_col w)) s)
       \<and> cursor_row w1 = cursor_row w + 1 \<and> cursor_col w1 = 0
       \<and> backspace_char w1 = Some w2
       \<and> lines w2 (cursor_row w) = Some s
       \<and> line_count w2 = line_count w
       \<and> cursor_row w2 = cursor_row w \<and> cursor_col w2 = cursor_col w
       \<and> document w2 = document w"
proof -
  define c where "c = nat (cursor_col w)"
  define w1 where "w1 = w\<lparr>lines := (make_room_loop (line_count w - 1) (cursor_row w + 1) 1 (lines w))
                (cursor_row w \<mapsto> take c s, cursor_row w + 1 \<mapsto> drop c s),
             line_count := line_count w + 1, heap := tl (heap w),
             cursor_row := cursor_row w + 1, cursor_col := 0\<rparr>"
  have i1: "insert_newline w = Some w1"
    unfolding w1_def c_def by (rule insert_newline_split [OF assms])
  have w1: "line_count w1 = line_count w + 1" "lines w1 (cursor_row w) = Some (take c s)"
    "lines w1 (cursor_row w + 1) = Some (drop c s)" "cursor_row w1 = cursor_row w + 1"
    "cursor_col w1 = 0"
    by (simp_all add: w1_def)
  have w1_other: "\<And>j. j \<noteq> cursor_row w \<Longrightarrow> j \<noteq> cursor_row w + 1 \<Longrightarrow>
      lines w1 j = (if cursor_row w + 2 \<le> j \<and> j \<le> line_count w then lines w (j - 1) else lines w j)"
    by (simp add: w1_def make_room_loop_apply)
  have lc: "int (min (length s) c) = cursor_col w" "length (take c s) = c" "take c s @ drop c s = s"
    using assms(5,6) by (auto simp: c_def min_def)
  define v where "v = w1\<lparr>cursor_row := cursor_row w, cursor_col := cursor_col w\<rparr>"
  have la: "line_at w1 (cursor_row w1 - 1) = Some (take c s)"
    using assms(1,2,3) by (simp add: line_at_def w1)
  have b: "backspace_char w1 = delete_char v"
    using la assms(1) by (simp add: backspace_char_def w1 lc v_def)
  have v: "cursor_row v = cursor_row w" "cursor_col v = cursor_col w" "line_count v = line_count w + 1"
    "lines v = lines w1" "heap v = tl (heap w)"
    by (simp_all add: v_def w1_def)
  have av: "allocs_succeed v" using assms(8) by (simp add: allocs_succeed_def v list_all_tl)
  define w2 where "w2 = v\<lparr>lines := close_gap_loop (cursor_row v + 1) 1 (line_count v)
                         ((lines v)(cursor_row v \<mapsto> take c s @ drop c s, cursor_row v + 1 := None)),
             line_count := line_count v - 1, heap := tl (heap v)\<rparr>"
  have d: "delete_char v = Some w2"
    unfolding w2_def
    by (rule delete_char_join) (use assms av in \<open>simp_all add: v w1 lc\<close>)
  have w2: "line_count w2 = line_count w" "cursor_row w2 = cursor_row w" "cursor_col w2 = cursor_col w"
    by (simp_all add: w2_def v)
  have w2_lines: "\<And>j. lines w2 j = (if cursor_row w + 1 \<le> j \<and> j < line_count w
      then ((lines w1)(cursor_row w \<mapsto> s, cursor_row w + 1 := None)) (j + 1)
      else ((lines w1)(cursor_row w \<mapsto> s, cursor_row w + 1 := None)) j)"
    by (simp add: w2_def v close_gap_loop_apply)
  have row: "lines w2 (cursor_row w) = Some s" by (simp add: w2_lines)
  have doc: "document w2 = document w"
  proof (rule document_eqI)
    show "line_count w2 = line_count w" by (rule w2)
    show "\<forall>i. 0 \<le> i \<and> i < line_count w2 \<longrightarrow> lines w2 i = lines w i"
      using assms(4) by (auto simp: w2 w2_lines w1_other)
  qed
  from i1 w1 b d row w2 doc show ?thesis unfolding c_def by auto
qed

theorem split_join_witness:
  "0 \<le> cursor_row abcdef_state \<and> cursor_row abcdef_state < line_count abcdef_state
   \<and> line_count abcdef_state < MAX_LINES
   \<and> lines abcdef_state (cursor_row abcdef_state) = Some ''abcdef''
   \<and> 0 \<le> cursor_col abcdef_state \<and> cursor_col abcdef_state \<le> int (length ''abcdef'')
   \<and> length ''abcdef'' < LINE_LEN \<and> allocs_succeed abcdef_state
   \<and> (\<exists>w1 w2. insert_newline abcdef_state = Some w1
         \<and> lines w1 0 = Some ''abc'' \<and> lines w1 1 = Some ''def''
         \<and> cursor_row w1 = 1 \<and> cursor_col w1 = 0
         \<and> backspace_char w1 = Some w2
         \<and> lines w2 0 = Some ''abcdef'' \<and> line_count w2 = 2
         \<and> cursor_row w2 = 0 \<and> cursor_col w2 = 3
         \<and> document w2 = document abcdef_state)"
proof -
  have h: "0 \<le> cursor_row abcdef_state" "cursor_row abcdef_state < line_count abcdef_state"
    "line_count abcdef_state < MAX_LINES"
    "lines abcdef_state (cursor_row abcdef_state) = Some ''abcdef''"
    "0 \<le> cursor_col abcdef_state" "cursor_col abcdef_state \<le> int (length ''abcdef'')"
    "length ''abcdef'' < LINE_LEN" "allocs_succeed abcdef_state"
    by (simp_all add: abcdef_state_def world0_def MAX_LINES_def LINE_LEN_def allocs_succeed_def)
  have v: "cursor_row abcdef_state = 0" "cursor_col abcdef_state = 3" "line_count abcdef_state = 2"
    by (simp_all add: abcdef_state_def world0_def)
  have t: "take (nat 3) ''abcdef'' = ''abc''" "drop (nat 3) ''abcdef'' = ''def''"
    by (simp_all add: numeral_3_eq_3)
  from split_join [OF h] obtain w1 w2 where
    "insert_newline abcdef_state = Some w1"
    "lines w1 0 = Some ''abc''" "lines w1 1 = Some ''def''"
    "cursor_row w1 = 1" "cursor_col w1 = 0"
    "backspace_char w1 = Some w2"
    "lines w2 0 = Some ''abcdef''" "line_count w2 = 2"
    "cursor_row w2 = 0" "cursor_col w2 = 3"
    "document w2 = document abcdef_state"
    unfolding v t by auto
  with h show ?thesis by blast
qed



subsection \<open>Load and save\<close>

lemma fgets_chunk_line:
  "LF \<notin> set l \<Longrightarrow> length l < n \<Longrightarrow> fgets_chunk n (l @ LF # rest) = l @ [LF]"
  by (induction l arbitrary: n) auto

lemma fgets_chunk_full:
  "LF \<notin> set l \<Longrightarrow> length l = n \<Longrightarrow> fgets_chunk n (l @ rest) = l"
proof (induction l arbitrary: n)
  case Nil
  then show ?case by (cases rest) auto
next
  case (Cons c l)
  then show ?case by auto
qed

lemma fgets_line:
  assumes "loadable (l, crlf)"
  shows "fgets LINE_LEN ((l @ line_end crlf) @ rest) = Some (l @ line_end crlf, rest)"
proof -
  from assms have n: "NUL \<notin> set l" and f: "LF \<notin> set l"
    and len: "length (l @ line_end crlf) < LINE_LEN"
    by (auto simp: loadable_def)
  define l' where "l' = (if crlf then l @ [CR] else l)"
  have e: "l @ line_end crlf = l' @ [LF]" by (simp add: l'_def line_end_def)
  have f': "LF \<notin> set l'" using f by (simp add: l'_def LF_def CR_def)
  have n': "NUL \<notin> set (l' @ [LF])" using n by (simp add: l'_def LF_def CR_def NUL_def)
  have len': "length l' < LINE_LEN - 1" using len unfolding e by simp
  have c: "fgets_chunk (LINE_LEN - 1) ((l' @ [LF]) @ rest) = l' @ [LF]"
    using fgets_chunk_line [OF f' len', of rest] by simp
  have t: "takeWhile (\<lambda>c. c \<noteq> NUL) (l' @ [LF]) = l' @ [LF]"
    using n' by (intro takeWhile_eq_all_conv [THEN iffD2]) auto
  show ?thesis unfolding e
    by (simp only: fgets_def c Let_def t) simp
qed

lemma chomp_line:
  assumes "loadable (l, crlf)"
  shows "chomp (l @ line_end crlf) = l"
proof (cases crlf)
  case True
  then show ?thesis by (simp add: chomp_def line_end_def Let_def butlast_append)
next
  case False
  with assms have "l = [] \<or> last l \<noteq> CR" by (simp add: loadable_def)
  with False show ?thesis by (auto simp: chomp_def line_end_def Let_def LF_def CR_def)
qed


lemma upto_as_upt: "[0..int n - 1] = map int [0..<n]"
proof (induction n)
  case 0
  show ?case by simp
next
  case (Suc n)
  have "[0..int (Suc n) - 1] = [0..int n - 1] @ [int n]"
    using upto_rec2 [of 0 "int n"] by simp
  with Suc show ?case by simp
qed

lemma free_lines_frame:
  "free_lines i hi w = w\<lparr>lines := lines (free_lines i hi w)\<rparr>"
proof (induction i hi w rule: free_lines.induct)
  case (1 i hi w)
  show ?case
  proof (cases "i \<le> hi")
    case True
    have e: "free_lines i hi w = free_lines (i + 1) hi (free_line i w)"
      using True by (subst free_lines.simps) simp
    have "free_line i w = w\<lparr>lines := lines (free_line i w)\<rparr>" by (simp add: free_line_def)
    with "1.IH" [OF True] show ?thesis unfolding e
      by (metis (no_types, lifting) world.surjective world.update_convs(1))
  next
    case False
    then show ?thesis by (subst free_lines.simps, subst free_lines.simps) simp
  qed
qed

lemma load_loop_lines:
  assumes "list_all loadable ls" "allocs_succeed w" "0 \<le> line_count w"
    and "line_count w + int (length ls) < MAX_LINES"
  shows "\<exists>w'. load_loop (file_text ls) w = (True, w')
      \<and> line_count w' = line_count w + int (length ls)
      \<and> (\<forall>i < length ls. lines w' (line_count w + int i) = Some (fst (ls ! i)))
      \<and> (\<forall>j < line_count w. lines w' j = lines w j)
      \<and> unwritable w' = unwritable w \<and> files w' = files w"
  using assms
proof (induction ls arbitrary: w)
  case Nil
  have "load_loop [] w = (True, w)" by (subst load_loop.simps) (simp add: fgets_def)
  then show ?case by (simp add: file_text_def)
next
  case (Cons x ls)
  obtain l crlf where x: "x = (l, crlf)" by (cases x)
  from Cons.prems(1) x have lo: "loadable (l, crlf)" and rest: "list_all loadable ls" by simp_all
  have ft: "file_text (x # ls) = (l @ line_end crlf) @ file_text ls" by (simp add: file_text_def x)
  note fg = fgets_line [OF lo, of "file_text ls"] and ch = chomp_line [OF lo]
  let ?w1 = "w\<lparr>heap := tl (heap w)\<rparr>"
  have xs: "xstrdup l w = (Some l, ?w1)"
    using malloc_ok [OF Cons.prems(2)] by (simp add: xstrdup_def)
  let ?w3 = "?w1\<lparr>lines := (lines ?w1)(line_count ?w1 \<mapsto> l), line_count := line_count ?w1 + 1\<rparr>"
  have nofull: "\<not> line_count ?w3 \<ge> MAX_LINES" using Cons.prems(4) by simp
  have step: "load_loop (file_text (x # ls)) w = load_loop (file_text ls) ?w3"
    unfolding ft using Cons.prems(4)
    by (subst load_loop.simps) (simp add: fg ch xs Let_def del: append_assoc)
  have a3: "allocs_succeed ?w3" using Cons.prems(2) by (simp add: allocs_succeed_def list_all_tl)
  have c3: "0 \<le> line_count ?w3" "line_count ?w3 + int (length ls) < MAX_LINES"
    using Cons.prems(3,4) by simp_all
  from Cons.IH [OF rest a3 c3] obtain w' where w': "load_loop (file_text ls) ?w3 = (True, w')"
    "line_count w' = line_count ?w3 + int (length ls)"
    "\<forall>i < length ls. lines w' (line_count ?w3 + int i) = Some (fst (ls ! i))"
    "\<forall>j < line_count ?w3. lines w' j = lines ?w3 j"
    "unwritable w' = unwritable ?w3" "files w' = files ?w3" by blast
  have below: "lines w' (line_count w) = Some l" using w'(4) by simp
  have nth: "\<forall>i < length (x # ls). lines w' (line_count w + int i) = Some (fst ((x # ls) ! i))"
  proof (intro allI impI)
    fix i assume i: "i < length (x # ls)"
    show "lines w' (line_count w + int i) = Some (fst ((x # ls) ! i))"
    proof (cases i)
      case 0
      with below x show ?thesis by simp
    next
      case (Suc k)
      with i have "k < length ls" by simp
      with w'(3) have "lines w' (line_count ?w3 + int k) = Some (fst (ls ! k))" by blast
      moreover have "line_count ?w3 + int k = line_count w + int i" using Suc by simp
      ultimately show ?thesis using Suc by (simp add: add.assoc)
    qed
  qed
  have old: "\<forall>j < line_count w. lines w' j = lines w j" using w'(4) by simp
  have "load_loop (file_text (x # ls)) w = (True, w')" using step w'(1) by simp
  moreover have "line_count w' = line_count w + int (length (x # ls))" using w'(2) by simp
  moreover have "unwritable w' = unwritable w" "files w' = files w" using w'(5,6) by simp_all
  ultimately show ?case using nth old by blast
qed


lemma map_nth_fst: "map (\<lambda>k. f (fst (ls ! k))) [0..<length ls] = map (\<lambda>x. f (fst x)) ls"
  by (rule nth_equalityI) simp_all

text \<open>
  What loading and saving keep. Let a file have fewer than \<open>MAX_LINES\<close> lines, each
  without NUL and of at most \<open>LINE_LEN - 2\<close> (254) bytes when it ends in LF and at
  most \<open>LINE_LEN - 3\<close> (253) when it ends in CR LF. When no allocation fails,
  loading it succeeds and stores the contents of its lines, and saving then writes
  each of them followed by one LF: for a file whose lines all end in LF the output
  is byte-identical to the input, and CR LF endings come back as LF.
\<close>

theorem load_save_round_trip:
  assumes "files w name = Some (file_text ls)" and "list_all loadable ls"
    and "int (length ls) < MAX_LINES" and "allocs_succeed w" and "out \<notin> unwritable w"
  shows "\<exists>w1 w2. load_file name w = (True, w1)
       \<and> line_count w1 = int (length ls)
       \<and> document w1 = map (\<lambda>x. Some (fst x)) ls
       \<and> write_file out w1 = (True, w2)
       \<and> files w2 out = Some (file_text (map (\<lambda>x. (fst x, False)) ls))
       \<and> (list_all (\<lambda>x. \<not> snd x) ls \<longrightarrow> files w2 out = Some (file_text ls))"
proof -
  let ?w2 = "(free_lines 0 (line_count w - 1) w)\<lparr>line_count := 0\<rparr>"
  have fr: "free_lines 0 (line_count w - 1) w = w\<lparr>lines := lines (free_lines 0 (line_count w - 1) w)\<rparr>"
    by (rule free_lines_frame)
  have a2: "allocs_succeed ?w2" using assms(4) by (simp add: allocs_succeed_def free_lines_apply)
  have u2: "unwritable ?w2 = unwritable w" by (subst fr) simp
  have c2: "0 \<le> line_count ?w2" "line_count ?w2 + int (length ls) < MAX_LINES"
    using assms(3) by simp_all
  from load_loop_lines [OF assms(2) a2 c2] obtain w3 where w3:
    "load_loop (file_text ls) ?w2 = (True, w3)" "line_count w3 = int (length ls)"
    "\<forall>i < length ls. lines w3 (int i) = Some (fst (ls ! i))" "unwritable w3 = unwritable w"
    using u2 by auto
  define w1 where "w1 = w3\<lparr>current_file := take 127 name, last_a := 1, last_b := line_count w3\<rparr>"
  have l: "load_file name w = (True, w1)"
    using assms(1) w3(1) by (simp add: load_file_def Let_def w1_def)
  have w1: "line_count w1 = int (length ls)" "lines w1 = lines w3" "unwritable w1 = unwritable w"
    using w3 by (simp_all add: w1_def)
  have nth: "\<And>k. k < length ls \<Longrightarrow> lines w1 (int k) = Some (fst (ls ! k))"
    using w3(3) w1(2) by simp
  have doc: "document w1 = map (\<lambda>x. Some (fst x)) ls"
  proof -
    have "document w1 = map (\<lambda>k. lines w1 (int k)) [0..<length ls]"
      by (simp add: document_def w1 upto_as_upt comp_def)
    also have "\<dots> = map (\<lambda>k. Some (fst (ls ! k))) [0..<length ls]" using nth by simp
    also have "\<dots> = map (\<lambda>x. Some (fst x)) ls" by (rule map_nth_fst)
    finally show ?thesis .
  qed
  define w2 where "w2 = w1\<lparr>files := (files w1)(out \<mapsto>
      concat (map (\<lambda>i. str_or_empty (lines w1 i) @ [LF]) [0..line_count w1 - 1])),
      current_file := take 127 out\<rparr>"
  have wr: "write_file out w1 = (True, w2)"
    using assms(5) w1(3) by (simp add: write_file_def w2_def)
  have "map (\<lambda>i. str_or_empty (lines w1 i) @ [LF]) [0..line_count w1 - 1]
      = map (\<lambda>k. str_or_empty (lines w1 (int k)) @ [LF]) [0..<length ls]"
    by (simp add: w1 upto_as_upt comp_def)
  also have "\<dots> = map (\<lambda>k. fst (ls ! k) @ [LF]) [0..<length ls]"
    using nth by (simp add: str_or_empty_def)
  also have "\<dots> = map (\<lambda>x. fst x @ [LF]) ls" by (rule map_nth_fst)
  finally have saved: "files w2 out = Some (file_text (map (\<lambda>x. (fst x, False)) ls))"
    by (simp add: w2_def file_text_def line_end_def comp_def)
  have same: "list_all (\<lambda>x. \<not> snd x) ls \<longrightarrow> map (\<lambda>x. (fst x, False)) ls = ls"
    by (induction ls) auto
  from l w1(1) doc wr saved same show ?thesis by auto
qed


theorem load_save_round_trip_witness:
  "files sample_file ''IN.TXT'' = Some (file_text [(''ab'', False), (''cd'', True)])
   \<and> list_all loadable [(''ab'', False), (''cd'', True)]
   \<and> int (length [(''ab'', False), (''cd'', True)]) < MAX_LINES
   \<and> allocs_succeed sample_file \<and> ''OUT.TXT'' \<notin> unwritable sample_file
   \<and> (\<exists>w1 w2. load_file ''IN.TXT'' sample_file = (True, w1)
         \<and> document w1 = [Some ''ab'', Some ''cd'']
         \<and> write_file ''OUT.TXT'' w1 = (True, w2)
         \<and> files w2 ''OUT.TXT'' = Some ''ab\<newline>cd\<newline>'')"
proof -
  have h: "files sample_file ''IN.TXT'' = Some (file_text [(''ab'', False), (''cd'', True)])"
    "list_all loadable [(''ab'', False), (''cd'', True)]"
    "int (length [(''ab'', False), (''cd'', True)]) < MAX_LINES"
    "allocs_succeed sample_file" "''OUT.TXT'' \<notin> unwritable sample_file"
    by (simp_all add: sample_file_def world0_def file_text_def line_end_def loadable_def
        NUL_def LF_def CR_def LINE_LEN_def MAX_LINES_def allocs_succeed_def)
  have e: "file_text (map (\<lambda>x. (fst x, False)) [(''ab'', False), (''cd'', True)]) = ''ab\<newline>cd\<newline>''"
    by (simp add: file_text_def line_end_def LF_def)
  from load_save_round_trip [OF h] obtain w1 w2 where
    "load_file ''IN.TXT'' sample_file = (True, w1)"
    "document w1 = [Some ''ab'', Some ''cd'']"
    "write_file ''OUT.TXT'' w1 = (True, w2)"
    "files w2 ''OUT.TXT'' = Some ''ab\<newline>cd\<newline>''"
    unfolding e by auto
  with h show ?thesis by blast
qed

lemma load_loop_step:
  assumes "fgets LINE_LEN f = Some (buf, rest)" "allocs_succeed w" "line_count w + 1 < MAX_LINES"
  shows "load_loop f w = load_loop rest
     (w\<lparr>heap := tl (heap w), lines := (lines w)(line_count w \<mapsto> chomp buf),
        line_count := line_count w + 1\<rparr>)"
proof -
  have xs: "xstrdup (chomp buf) w = (Some (chomp buf), w\<lparr>heap := tl (heap w)\<rparr>)"
    using malloc_ok [OF assms(2)] by (simp add: xstrdup_def)
  show ?thesis using assms(1,3)
    by (subst load_loop.simps) (simp add: xs Let_def)
qed

lemma load_loop_eof: "load_loop [] w = (True, w)"
  by (subst load_loop.simps) (simp add: fgets_def)

text \<open>
  C2. A line of exactly \<open>LINE_LEN - 1\<close> (255) bytes, the longest line the editor
  itself stores and \<open>write_file\<close> writes, does not come back from \<open>load_file\<close>. Its
  buffer has \<open>LINE_LEN\<close> bytes, one too few for the line, its line feed and the
  terminator: \<^verbatim>\<open>fgets\<close> fills it with the 255 bytes and leaves the line feed for the
  next call. For the file of one such line, LF-terminated, the load reports
  success with a document of two lines, the second empty, and saving writes one
  more line feed than the file had.
\<close>

theorem load_file_long_line:
  "files long_line_file ''F'' = Some (replicate 255 (CHR ''a'') @ [LF])
   \<and> fst (load_file ''F'' long_line_file)
   \<and> line_count (snd (load_file ''F'' long_line_file)) = 2
   \<and> lines (snd (load_file ''F'' long_line_file)) 0 = Some (replicate 255 (CHR ''a''))
   \<and> lines (snd (load_file ''F'' long_line_file)) 1 = Some []
   \<and> files (snd (write_file ''G'' (snd (load_file ''F'' long_line_file)))) ''G''
        = Some (replicate 255 (CHR ''a'') @ [LF, LF])
   \<and> replicate 255 (CHR ''a'') @ [LF, LF] \<noteq> replicate 255 (CHR ''a'') @ [LF]"
proof -
  define w2 where "w2 = (free_lines 0 (line_count long_line_file - 1) long_line_file)\<lparr>line_count := 0\<rparr>"
  have lc0: "line_count long_line_file = 0" by (simp add: long_line_file_def world0_def)
  have fl: "free_lines 0 (line_count long_line_file - 1) long_line_file = long_line_file"
    unfolding lc0 by (subst free_lines.simps) simp
  have w2: "w2 = long_line_file" unfolding w2_def fl using lc0 by simp
  have c: "fgets_chunk (LINE_LEN - 1) (replicate 255 (CHR ''a'') @ [LF]) = replicate 255 (CHR ''a'')"
    by (rule fgets_chunk_full) (simp_all add: LF_def LINE_LEN_def)
  have t: "takeWhile (\<lambda>c. c \<noteq> NUL) (replicate 255 (CHR ''a'')) = replicate 255 (CHR ''a'')"
    by (simp add: NUL_def)
  have f1: "fgets LINE_LEN (replicate 255 (CHR ''a'') @ [LF]) = Some (replicate 255 (CHR ''a''), [LF])"
    by (simp only: fgets_def c t Let_def) simp
  have f2: "fgets LINE_LEN [LF] = Some ([LF], [])"
    by (simp add: fgets_def LINE_LEN_def LF_def NUL_def)
  have ch1: "chomp (replicate 255 (CHR ''a'')) = replicate 255 (CHR ''a'')"
    by (simp add: chomp_def Let_def LF_def CR_def)
  have ch2: "chomp [LF] = []" by (simp add: chomp_def)
  have a: "allocs_succeed long_line_file" "line_count long_line_file + 1 < MAX_LINES"
    by (simp_all add: allocs_succeed_def long_line_file_def world0_def MAX_LINES_def)
  define v1 where "v1 = long_line_file\<lparr>heap := tl (heap long_line_file),
      lines := (lines long_line_file)(line_count long_line_file \<mapsto> replicate 255 (CHR ''a'')),
      line_count := line_count long_line_file + 1\<rparr>"
  have s1: "load_loop (replicate 255 (CHR ''a'') @ [LF]) long_line_file = load_loop [LF] v1"
    unfolding v1_def using load_loop_step [OF f1 a] by (simp add: ch1)
  have a1: "allocs_succeed v1" "line_count v1 + 1 < MAX_LINES"
    by (simp_all add: v1_def allocs_succeed_def long_line_file_def world0_def MAX_LINES_def)
  define v2 where "v2 = v1\<lparr>heap := tl (heap v1), lines := (lines v1)(line_count v1 \<mapsto> []),
      line_count := line_count v1 + 1\<rparr>"
  have s2: "load_loop [LF] v1 = (True, v2)"
    unfolding v2_def using load_loop_step [OF f2 a1] by (simp add: ch2 load_loop_eof)
  have fs: "files long_line_file ''F'' = Some (replicate 255 (CHR ''a'') @ [LF])"
    by (simp add: long_line_file_def)
  have lf: "load_file ''F'' long_line_file
      = (True, v2\<lparr>current_file := take 127 ''F'', last_a := 1, last_b := line_count v2\<rparr>)"
    using fs s1 s2 w2 by (simp add: load_file_def Let_def w2_def [symmetric])
  have v2: "line_count v2 = 2" "lines v2 0 = Some (replicate 255 (CHR ''a''))" "lines v2 1 = Some []"
    "unwritable v2 = {}"
    by (simp_all add: v2_def v1_def lc0) (simp add: long_line_file_def world0_def)
  have u: "[0..1] = [0, 1::int]" by (simp add: upto_rec1)
  have wf: "files (snd (write_file ''G'' (snd (load_file ''F'' long_line_file)))) ''G''
        = Some (replicate 255 (CHR ''a'') @ [LF, LF])"
    by (simp add: lf write_file_def v2 u str_or_empty_def)
  have ne: "replicate 255 (CHR ''a'') @ [LF, LF] \<noteq> replicate 255 (CHR ''a'') @ [LF]" by simp
  from fs lf v2 wf ne show ?thesis by (simp)
qed

subsection \<open>The range memory\<close>

text \<open>
  Every function of the model commutes with \<open>set_range\<close>: run from a state with
  other values in \<open>last_a\<close> and \<open>last_b\<close>, it returns the same result in a state
  that differs in these two fields at most. The commands that store a range
  overwrite both fields, so their two results agree once the fields are reset.
\<close>

lemma set_range_sel [simp]:
  "lines (set_range x y w) = lines w" "line_count (set_range x y w) = line_count w"
  "current_file (set_range x y w) = current_file w"
  "cursor_row (set_range x y w) = cursor_row w" "cursor_col (set_range x y w) = cursor_col w"
  "top_line (set_range x y w) = top_line w" "video_segment (set_range x y w) = video_segment w"
  "heap (set_range x y w) = heap w" "stdin (set_range x y w) = stdin w"
  "console (set_range x y w) = console w" "keys (set_range x y w) = keys w"
  "files (set_range x y w) = files w" "unwritable (set_range x y w) = unwritable w"
  "wherex (set_range x y w) = wherex w" "bios_video_mode (set_range x y w) = bios_video_mode w"
  by (simp_all add: set_range_def)

lemma set_range_upd [simp]:
  "(set_range x y w)\<lparr>lines := l\<rparr> = set_range x y (w\<lparr>lines := l\<rparr>)"
  "(set_range x y w)\<lparr>line_count := n\<rparr> = set_range x y (w\<lparr>line_count := n\<rparr>)"
  "(set_range x y w)\<lparr>current_file := f\<rparr> = set_range x y (w\<lparr>current_file := f\<rparr>)"
  "(set_range x y w)\<lparr>cursor_row := n\<rparr> = set_range x y (w\<lparr>cursor_row := n\<rparr>)"
  "(set_range x y w)\<lparr>cursor_col := n\<rparr> = set_range x y (w\<lparr>cursor_col := n\<rparr>)"
  "(set_range x y w)\<lparr>top_line := n\<rparr> = set_range x y (w\<lparr>top_line := n\<rparr>)"
  "(set_range x y w)\<lparr>video_segment := n\<rparr> = set_range x y (w\<lparr>video_segment := n\<rparr>)"
  "(set_range x y w)\<lparr>heap := h\<rparr> = set_range x y (w\<lparr>heap := h\<rparr>)"
  "(set_range x y w)\<lparr>stdin := i\<rparr> = set_range x y (w\<lparr>stdin := i\<rparr>)"
  "(set_range x y w)\<lparr>console := c\<rparr> = set_range x y (w\<lparr>console := c\<rparr>)"
  "(set_range x y w)\<lparr>keys := k\<rparr> = set_range x y (w\<lparr>keys := k\<rparr>)"
  "(set_range x y w)\<lparr>files := fs\<rparr> = set_range x y (w\<lparr>files := fs\<rparr>)"
  by (simp_all add: set_range_def)

lemma set_range_twice [simp]:
  "set_range a b (set_range x y w) = set_range a b w"
  "set_range a b (w\<lparr>last_a := x, last_b := y\<rparr>) = set_range a b w"
  "(set_range x y w)\<lparr>last_a := a, last_b := b\<rparr> = w\<lparr>last_a := a, last_b := b\<rparr>"
  by (simp_all add: set_range_def)

lemma printf_range [simp]: "printf s (set_range x y w) = set_range x y (printf s w)"
  by (simp add: printf_def)

lemma puts_range [simp]: "puts s (set_range x y w) = set_range x y (puts s w)"
  by (simp add: puts_def)

lemma conio_range [simp]: "conio c (set_range x y w) = set_range x y (conio c w)"
  by (simp add: conio_def)

lemma malloc_range [simp]: "malloc (set_range x y w) = apsnd (set_range x y) (malloc w)"
  by (simp add: malloc_def split: list.splits)

lemma xstrdup_range [simp]: "xstrdup s (set_range x y w) = apsnd (set_range x y) (xstrdup s w)"
  by (simp add: xstrdup_def split: prod.splits bool.splits)

lemma free_line_range [simp]: "free_line i (set_range x y w) = set_range x y (free_line i w)"
  by (auto simp: free_line_def)

lemma free_lines_range [simp]: "free_lines i hi (set_range x y w) = set_range x y (free_lines i hi w)"
proof (induction i hi w rule: free_lines.induct)
  case (1 i hi w)
  show ?case
  proof (cases "i \<le> hi")
    case True
    have "free_lines i hi (set_range x y w) = free_lines (i + 1) hi (free_line i (set_range x y w))"
      using True by (subst free_lines.simps) simp
    also have "\<dots> = set_range x y (free_lines (i + 1) hi (free_line i w))"
      using "1.IH" [OF True] by simp
    also have "\<dots> = set_range x y (free_lines i hi w)"
      using True by (subst (2) free_lines.simps) simp
    finally show ?thesis .
  next
    case False
    then show ?thesis by (subst free_lines.simps, subst (2) free_lines.simps) simp
  qed
qed

lemma make_room_range [simp]:
  "make_room pos count (set_range x y w) = apsnd (set_range x y) (make_room pos count w)"
  by (simp add: make_room_def)

lemma close_gap_range [simp]:
  "close_gap start count (set_range x y w) = set_range x y (close_gap start count w)"
  by (simp add: close_gap_def)

lemma to_range_defaults_range [simp]:
  "to_range_defaults a b (set_range x y w) = to_range_defaults a b w"
  by (simp add: to_range_defaults_def)

lemma parse_range_range [simp]: "parse_range p (set_range x y w) = parse_range p w"
  by (simp add: parse_range_def cong: list.case_cong if_cong)

lemma line_at_range [simp]: "line_at (set_range x y w) i = line_at w i"
  by (simp add: line_at_def)

lemma name_or_none_range [simp]: "name_or_none (set_range x y w) = name_or_none w"
  by (simp add: name_or_none_def)

lemma fold_range:
  assumes "\<And>i v. f i (set_range x y v) = set_range x y (f i v)"
  shows "fold f xs (set_range x y w) = set_range x y (fold f xs w)"
  by (induction xs arbitrary: w) (simp_all add: assms)

lemma fold_opt_range:
  assumes "\<And>i v. f i (set_range x y v) = map_option (set_range x y) (f i v)"
  shows "fold_opt f xs (set_range x y w) = map_option (set_range x y) (fold_opt f xs w)"
  by (induction xs arbitrary: w) (simp_all add: assms split: option.splits)

lemma fold_pair_range:
  assumes "\<And>i n v. f i (n, set_range x y v) = apsnd (set_range x y) (f i (n, v))"
  shows "fold f xs (n, set_range x y w) = apsnd (set_range x y) (fold f xs (n, w))"
proof (induction xs arbitrary: n w)
  case Nil
  show ?case by simp
next
  case (Cons i xs)
  obtain n1 w1 where f: "f i (n, w) = (n1, w1)" by (cases "f i (n, w)")
  then show ?case using Cons [of n1 w1] by (simp add: assms)
qed


lemma replace_loop_range:
  "replace_loop s oldp newp g made limit (set_range x y w)
     = apsnd (apsnd (set_range x y)) (replace_loop s oldp newp g made limit w)"
proof (induction s oldp newp g made limit w rule: replace_loop.induct)
  case (1 s oldp newp g made limit w)
  note unf = replace_loop.simps [of s oldp newp _ made limit]
  show ?case
  proof (cases "strstr s oldp")
    case None
    then show ?thesis by (simp add: unf)
  next
    case (Some p)
    show ?thesis
    proof (cases "LINE_LEN \<le> p + length newp + (length s - (p + length oldp)) + 1")
      case True
      with Some show ?thesis by (simp add: unf)
    next
      case fits: False
      obtain ok w1 where m: "malloc w = (ok, w1)" by (cases "malloc w")
      show ?thesis
      proof (cases "ok \<and> g \<and> \<not> limit - 1 \<le> 0")
        case False
        with Some fits m show ?thesis by (cases ok) (auto simp: unf Let_def)
      next
        case True
        then have ok: "ok = True" and nng: "\<not> \<not> g" and lim: "\<not> limit - 1 \<le> 0" by auto
        note IH = "1.IH" [OF Some refl refl refl fits m [symmetric] ok refl nng lim]
        from Some fits m True IH show ?thesis by (simp add: unf Let_def)
      qed
    qed
  qed
qed

lemma replace_in_line_range [simp]:
  "replace_in_line s oldp newp g (set_range x y w)
     = apsnd (apsnd (set_range x y)) (replace_in_line s oldp newp g w)"
  by (simp add: replace_in_line_def replace_loop_range)

lemma load_loop_range:
  "load_loop f (set_range x y w) = apsnd (set_range x y) (load_loop f w)"
proof (induction f w rule: load_loop.induct)
  case (1 f w)
  note unf = load_loop.simps [of f]
  show ?case
  proof (cases "fgets LINE_LEN f")
    case None
    then show ?thesis by (simp add: unf)
  next
    case (Some br)
    obtain buf rest where br: "br = (buf, rest)" by (cases br)
    note fg = Some [unfolded br]
    obtain p w1 where xs: "xstrdup (chomp buf) w = (p, w1)" by (cases "xstrdup (chomp buf) w")
    show ?thesis
    proof (cases p)
      case None
      with fg xs show ?thesis by (simp add: unf Let_def)
    next
      case (Some v)
      show ?thesis
      proof (cases "MAX_LINES \<le> line_count w1 + 1")
        case True
        with fg xs Some show ?thesis by (simp add: unf Let_def)
      next
        case False
        have pn: "p \<noteq> None" using Some by simp
        have nf: "\<not> MAX_LINES \<le> line_count (w1\<lparr>lines := (lines w1)(line_count w1 := p)\<rparr>
              \<lparr>line_count := line_count (w1\<lparr>lines := (lines w1)(line_count w1 := p)\<rparr>) + 1\<rparr>)"
          using False by simp
        note IH = "1.IH" [OF fg refl xs [symmetric] refl pn refl nf]
        from fg xs Some False IH show ?thesis by (simp add: unf Let_def)
      qed
    qed
  qed
qed

lemma load_file_range:
  "load_file name (set_range x y w) = (case load_file name w of
       (False, w') \<Rightarrow> (False, set_range x y w')
     | (True, w') \<Rightarrow> (True, w'))"
  by (simp add: load_file_def Let_def load_loop_range set_range_def [of 1]
      split: option.splits prod.splits bool.splits)

lemma write_file_range [simp]:
  "write_file name (set_range x y w) = apsnd (set_range x y) (write_file name w)"
  by (simp add: write_file_def)

lemma ensure_line_exists_range [simp]:
  "ensure_line_exists idx (set_range x y w) = set_range x y (ensure_line_exists idx w)"
proof (induction idx w rule: ensure_line_exists.induct)
  case (1 idx w)
  note unf = ensure_line_exists.simps [of idx w] ensure_line_exists.simps [of idx "set_range x y w"]
  obtain p w1 where xs: "xstrdup [] w = (p, w1)" by (cases "xstrdup [] w")
  show ?case
  proof (cases "line_count w \<le> idx \<and> \<not> MAX_LINES \<le> line_count w")
    case False
    then show ?thesis by (auto simp: unf Let_def)
  next
    case True
    show ?thesis
    proof (cases p)
      case None
      with xs True show ?thesis by (simp add: unf Let_def)
    next
      case (Some v)
      have pn: "p \<noteq> None" using Some by simp
      note IH = "1.IH" [OF conjunct1 [OF True] conjunct2 [OF True] xs [symmetric] refl pn]
      from xs True Some IH show ?thesis by (simp add: unf Let_def)
    qed
  qed
qed

lemma insert_loop_range:
  "insert_loop pos (set_range x y w) = apsnd (set_range x y) (insert_loop pos w)"
proof (induction pos w rule: insert_loop.induct)
  case (1 pos w)
  note unf = insert_loop.simps [of pos]
  let ?w0 = "printf (fmt_05d (pos + 1) @ '': '') w"
  show ?case
  proof (cases "fgets LINE_LEN (stdin ?w0)")
    case None
    then show ?thesis by (simp add: unf Let_def)
  next
    case (Some br)
    obtain buf rest where br: "br = (buf, rest)" by (cases br)
    note fg = Some [unfolded br]
    obtain ok w2 where mr: "make_room pos 1 (?w0\<lparr>stdin := rest\<rparr>) = (ok, w2)"
      by (cases "make_room pos 1 (?w0\<lparr>stdin := rest\<rparr>)")
    obtain p w3 where xs: "xstrdup (chomp buf) w2 = (p, w3)" by (cases "xstrdup (chomp buf) w2")
    show ?thesis
    proof (cases "chomp buf \<noteq> ''.'' \<and> ok")
      case False
      with fg mr show ?thesis by (cases ok) (auto simp: unf Let_def)
    next
      case True
      then have a: "chomp buf \<noteq> ''.''" "ok = True" by auto
      show ?thesis
      proof (cases p)
        case None
        with fg mr xs a show ?thesis by (simp add: unf Let_def)
      next
        case (Some v)
        have pn: "p \<noteq> None" using Some by simp
        note IH = "1.IH" [OF refl fg refl refl a(1) mr [symmetric] a(2) xs [symmetric] refl pn]
        from fg mr xs a Some IH show ?thesis by (simp add: unf Let_def)
      qed
    qed
  qed
qed

lemma if_range [simp]:
  "(if c then set_range x y a else set_range x y b) = set_range x y (if c then a else b)"
  by simp

lemma case_apsnd [simp]:
  "(case apsnd f p of (a, b) \<Rightarrow> g a b) = (case p of (a, b) \<Rightarrow> g a (f b))"
  by (cases p) simp

lemma list_step_range [simp]: "list_step i (set_range x y w) = set_range x y (list_step i w)"
  by (simp add: list_step_def)

lemma cmd_list_range:
  "set_range a b (cmd_list p q (set_range x y w)) = set_range a b (cmd_list p q w)"
  by (simp add: cmd_list_def fold_range split: prod.splits)

lemma cmd_delete_range:
  "set_range a b (cmd_delete p q (set_range x y w)) = set_range a b (cmd_delete p q w)"
  by (simp add: cmd_delete_def Let_def split: prod.splits)

lemma cmd_insert_range:
  "set_range a b (cmd_insert n (set_range x y w)) = set_range a b (cmd_insert n w)"
  by (simp add: cmd_insert_def Let_def insert_loop_range split: prod.splits)

lemma cmd_edit_range:
  "set_range a b (cmd_edit n (set_range x y w)) = set_range a b (cmd_edit n w)"
  by (simp add: cmd_edit_def Let_def split: prod.splits option.splits)

lemma replace_step_range:
  "replace_step oldp newp g i (n, set_range x y w)
     = apsnd (set_range x y) (replace_step oldp newp g i (n, w))"
  by (simp add: replace_step_def split: prod.splits option.splits)

lemma replace_fold_range:
  "fold (replace_step oldp newp g) xs (n, set_range x y w)
     = apsnd (set_range x y) (fold (replace_step oldp newp g) xs (n, w))"
  by (rule fold_pair_range) (rule replace_step_range)

lemma cmd_replace_range:
  "set_range a b (cmd_replace p q spec (set_range x y w)) = set_range a b (cmd_replace p q spec w)"
  by (simp add: cmd_replace_def Let_def replace_fold_range
      split: prod.splits option.splits)

lemma search_step_range:
  "search_step pat i (n, set_range x y w) = apsnd (set_range x y) (search_step pat i (n, w))"
  by (simp add: search_step_def split: prod.splits option.splits)

lemma search_fold_range:
  "fold (search_step pat) xs (n, set_range x y w)
     = apsnd (set_range x y) (fold (search_step pat) xs (n, w))"
  by (rule fold_pair_range) (rule search_step_range)

lemma search_range_range:
  "set_range a b (search_range p q pat (set_range x y w)) = set_range a b (search_range p q pat w)"
  by (simp add: search_range_def search_fold_range split: prod.splits)

lemma cmd_search_range:
  "set_range a b (cmd_search p q spec (set_range x y w)) = set_range a b (cmd_search p q spec w)"
  by (simp add: cmd_search_def Let_def search_range_range split: prod.splits option.splits)

lemmas range_distrib =
  option.case_distrib [of "map_option (set_range x y)"]
  bool.case_distrib [of "map_option (set_range x y)"]
  prod.case_distrib [of "map_option (set_range x y)"]
  if_distrib [of "map_option (set_range x y)"]
  for x y

lemma insert_char_range [simp]:
  "insert_char c (set_range x y w) = map_option (set_range x y) (insert_char c w)"
  by (simp add: insert_char_def Let_def range_distrib
      cong: bool.case_cong option.case_cong prod.case_cong if_cong split del: if_split)

lemma delete_char_range [simp]:
  "delete_char (set_range x y w) = map_option (set_range x y) (delete_char w)"
  by (simp add: delete_char_def Let_def range_distrib
      cong: bool.case_cong option.case_cong prod.case_cong if_cong split del: if_split)

lemma backspace_char_range [simp]:
  "backspace_char (set_range x y w) = map_option (set_range x y) (backspace_char w)"
  by (simp add: backspace_char_def range_distrib
      cong: bool.case_cong option.case_cong prod.case_cong if_cong split del: if_split)

lemma insert_newline_range [simp]:
  "insert_newline (set_range x y w) = map_option (set_range x y) (insert_newline w)"
  by (simp add: insert_newline_def Let_def range_distrib
      cong: bool.case_cong option.case_cong prod.case_cong if_cong split del: if_split)


lemma gotoxy_cursor_range [simp]: "gotoxy_cursor (set_range x y w) = set_range x y (gotoxy_cursor w)"
  by (simp add: gotoxy_cursor_def)

lemma draw_row_range:
  "draw_row row (set_range x y w) = map_option (set_range x y) (draw_row row w)"
  by (simp add: draw_row_def Let_def range_distrib
      cong: bool.case_cong option.case_cong prod.case_cong if_cong split del: if_split)

lemma printf_fold_range [simp]:
  "fold (\<lambda>k. printf s) xs (set_range x y w) = set_range x y (fold (\<lambda>k. printf s) xs w)"
  by (rule fold_range) simp

lemma draw_status_range [simp]: "draw_status (set_range x y w) = set_range x y (draw_status w)"
  by (simp add: draw_status_def Let_def cong: if_cong split del: if_split)

lemma draw_rows_range:
  "fold_opt draw_row xs (set_range x y w) = map_option (set_range x y) (fold_opt draw_row xs w)"
  by (rule fold_opt_range) (rule draw_row_range)

lemma draw_screen_range [simp]:
  "draw_screen (set_range x y w) = map_option (set_range x y) (draw_screen w)"
  by (cases "fold_opt draw_row [0..SCREEN_ROWS - 2] (conio Clrscr w)")
     (simp_all add: draw_screen_def draw_rows_range)

lemma poke_cell_range [simp]:
  "poke_cell off c attr (set_range x y w) = set_range x y (poke_cell off c attr w)"
  by (simp add: poke_cell_def)

lemma poke_fold_range [simp]:
  "fold (\<lambda>i. poke_cell (f i) (g i) attr) xs (set_range x y w)
     = set_range x y (fold (\<lambda>i. poke_cell (f i) (g i) attr) xs w)"
  by (rule fold_range) simp

lemma write_char_at_cursor_range [simp]:
  "write_char_at_cursor c (set_range x y w) = set_range x y (write_char_at_cursor c w)"
  by (simp add: write_char_at_cursor_def Let_def)

lemma draw_current_line_range [simp]:
  "draw_current_line (set_range x y w) = map_option (set_range x y) (draw_current_line w)"
  by (simp add: draw_current_line_def Let_def range_distrib
      cong: bool.case_cong option.case_cong prod.case_cong if_cong split del: if_split)

lemma update_status_line_range [simp]:
  "update_status_line (set_range x y w) = set_range x y (update_status_line w)"
  by (simp add: update_status_line_def Let_def)

lemma detect_video_adapter_range [simp]:
  "detect_video_adapter (set_range x y w) = set_range x y (detect_video_adapter w)"
  by (simp add: detect_video_adapter_def)

lemma show_help_screen_range [simp]:
  "show_help_screen (set_range x y w) = set_range x y (show_help_screen w)"
  by (simp add: show_help_screen_def fold_range)

lemma clamp_col_range [simp]:
  "clamp_col (set_range x y w) = map_option (set_range x y) (clamp_col w)"
  by (simp add: clamp_col_def range_distrib
      cong: bool.case_cong option.case_cong prod.case_cong if_cong split del: if_split)

lemma clamp_col_goto_range [simp]:
  "clamp_col_goto (set_range x y w) = map_option (set_range x y) (clamp_col_goto w)"
  by (simp add: clamp_col_goto_def range_distrib
      cong: bool.case_cong option.case_cong prod.case_cong if_cong split del: if_split)

lemma scroll_down_range [simp]:
  "scroll_down (set_range x y w) = apsnd (set_range x y) (scroll_down w)"
  by (simp add: scroll_down_def)

lemma scroll_up_range [simp]:
  "scroll_up (set_range x y w) = apsnd (set_range x y) (scroll_up w)"
  by (simp add: scroll_up_def)

lemma status_line_range [simp]: "status_line (set_range x y w) = set_range x y (status_line w)"
  by (simp add: status_line_def)

lemma help_cmd_range [simp]: "help_cmd (set_range x y w) = set_range x y (help_cmd w)"
  by (simp add: help_cmd_def fold_range)

lemma wrote_range [simp]: "wrote name (set_range x y w) = set_range x y (wrote name w)"
  by (simp add: wrote_def prod.case_distrib [of "set_range x y"] bool.case_distrib [of "set_range x y"]
      cong: bool.case_cong prod.case_cong)

lemmas key_distrib =
  option.case_distrib [of "map_option (apsnd (apsnd (set_range x y)))"]
  bool.case_distrib [of "map_option (apsnd (apsnd (set_range x y)))"]
  prod.case_distrib [of "map_option (apsnd (apsnd (set_range x y)))"]
  if_distrib [of "map_option (apsnd (apsnd (set_range x y)))"]
  for x y

lemma case_map_range [simp]:
  "(case map_option (set_range x y) p of None \<Rightarrow> a | Some v \<Rightarrow> g v)
     = (case p of None \<Rightarrow> a | Some v \<Rightarrow> g (set_range x y v))"
  by (cases p) simp_all

lemma insert_spaces_range:
  "fold_opt (\<lambda>k. insert_char c) xs (set_range x y w)
     = map_option (set_range x y) (fold_opt (\<lambda>k. insert_char c) xs w)"
  by (rule fold_opt_range) simp

lemma apsnd_fst_snd: "apsnd f p = (fst p, f (snd p))"
  by (cases p) simp

lemma extended_key_range:
  "extended_key ch (set_range x y w)
     = map_option (apsnd (apsnd (set_range x y))) (extended_key ch w)"
  by (simp add: extended_key_def Let_def key_distrib option.map_comp o_def
      cong: bool.case_cong option.case_cong prod.case_cong if_cong split del: if_split)
     (simp add: prod.case_eq_if apsnd_fst_snd
      cong: option.case_cong if_cong split del: if_split)

lemma plain_key_range:
  "plain_key ch (set_range x y w)
     = map_option (apsnd (apsnd (set_range x y))) (plain_key ch w)"
  by (simp add: plain_key_def Let_def key_distrib option.map_comp o_def insert_spaces_range
      cong: bool.case_cong option.case_cong prod.case_cong if_cong split del: if_split)


lemma visual_loop_range:
  "visual_loop ks r (set_range x y w)
     = map_option (apsnd (apsnd (set_range x y))) (visual_loop ks r w)"
proof (induction ks arbitrary: r w rule: length_induct)
  case (1 ks)
  have IH: "visual_loop ys r' (set_range x y w')
              = map_option (apsnd (apsnd (set_range x y))) (visual_loop ys r' w')"
    if "length ys < length ks" for ys r' w'
    using 1 that by blast
  note unf = visual_loop.simps [of _ r w] visual_loop.simps [of _ r "set_range x y w"]
  define d where "d = (if r then draw_screen w else Some w)"
  have d': "(if r then draw_screen (set_range x y w) else Some (set_range x y w))
              = map_option (set_range x y) d"
    by (simp add: d_def)
  show ?case
  proof (cases d)
    case None
    then show ?thesis using d' by (simp add: unf d_def [symmetric])
  next
    case (Some w1)
    note dw = Some
    show ?thesis
    proof (cases ks)
      case Nil
      then show ?thesis using d' dw by (simp add: unf d_def [symmetric])
    next
      case (Cons ch ks1)
      note k = Cons
      show ?thesis
      proof (cases "ch = 0 \<or> ch = 0xE0")
        case False
        show ?thesis
        proof (cases "plain_key ch w1")
          case None
          then show ?thesis using d' dw k False
            by (simp add: unf d_def [symmetric] plain_key_range)
        next
          case (Some t)
          obtain running r1 w2 where t: "t = (running, r1, w2)" by (cases t)
          show ?thesis using d' dw k False Some t IH [of ks1 r1 w2]
            by (simp add: unf d_def [symmetric] plain_key_range)
        qed
      next
        case True
        note c = True
        show ?thesis
        proof (cases ks1)
          case Nil
          then show ?thesis using d' dw k c by (simp add: unf d_def [symmetric])
        next
          case (Cons ch2 ks2)
          note k1 = Cons
          show ?thesis
          proof (cases "ch2 = 59")
            case True
            show ?thesis
            proof (cases ks2)
              case Nil
              then show ?thesis using d' dw k c k1 True by (simp add: unf d_def [symmetric])
            next
              case (Cons kk ks3)
              then show ?thesis using d' dw k c k1 True IH [of ks3 True "show_help_screen w1"]
                by (simp add: unf d_def [symmetric])
            qed
          next
            case False
            show ?thesis
            proof (cases "extended_key ch2 w1")
              case None
              then show ?thesis using d' dw k c k1 False
                by (simp add: unf d_def [symmetric] extended_key_range)
            next
              case (Some t)
              obtain running r1 w2 where t: "t = (running, r1, w2)" by (cases t)
              show ?thesis using d' dw k c k1 False Some t IH [of ks2 r1 w2]
                by (simp add: unf d_def [symmetric] extended_key_range)
            qed
          qed
        qed
      qed
    qed
  qed
qed

lemma cmd_fullscreen_range:
  "cmd_fullscreen (set_range x y w) = map_option (apsnd (set_range x y)) (cmd_fullscreen w)"
proof -
  define prep where "prep = (\<lambda>w. let w1 = detect_video_adapter w;
          w2 = (if line_count w1 = 0 then ensure_line_exists 0 w1 else w1)
      in w2\<lparr>cursor_row := 0, cursor_col := 0, top_line := 0\<rparr>)"
  have cf: "cmd_fullscreen v = (case visual_loop (keys (prep v)) True (prep v) of
           None \<Rightarrow> None
         | Some (rest, False, w4) \<Rightarrow> Some (False, w4\<lparr>keys := rest\<rparr>)
         | Some (rest, True, w4) \<Rightarrow> Some (True, conio Clrscr (w4\<lparr>keys := rest\<rparr>)))" for v
    by (simp add: cmd_fullscreen_def prep_def Let_def)
  have pr: "prep (set_range x y w) = set_range x y (prep w)"
    by (simp add: prep_def Let_def)
  show ?thesis
  proof (cases "visual_loop (keys (prep w)) True (prep w)")
    case None
    then show ?thesis by (simp add: cf pr visual_loop_range)
  next
    case (Some t)
    obtain rest q w4 where t: "t = (rest, q, w4)" by (cases t)
    show ?thesis using Some t by (cases q) (simp_all add: cf pr visual_loop_range)
  qed
qed

lemma ranged_range:
  assumes "\<And>a b p q s v. set_range a b (cmd p q s (set_range x y v)) = set_range a b (cmd p q s v)"
  shows "set_range a b (ranged cmd buf (set_range x y w)) = set_range a b (ranged cmd buf w)"
  by (simp add: ranged_def Let_def assms split: option.splits prod.splits)

lemma command_range:
  "forget_range (command c p (set_range x y w)) = forget_range (command c p w)"
proof -
  have L: ?thesis if "c = CHR ''L''"
    using that by (simp add: command_def cmd_list_range split: option.splits prod.splits)
  have I: ?thesis if "c = CHR ''I''"
    using that by (simp add: command_def cmd_insert_range)
  have D: ?thesis if "c = CHR ''D''"
    using that by (simp add: command_def cmd_delete_range split: option.splits prod.splits)
  have E: ?thesis if "c = CHR ''E''"
    using that by (simp add: command_def cmd_edit_range)
  have R: ?thesis if "c = CHR ''R''"
    using that by (simp add: command_def Let_def ranged_range [of cmd_replace, OF cmd_replace_range])
  have S: ?thesis if "c = CHR ''S''"
    using that
    by (simp add: command_def Let_def ranged_range [of cmd_search, OF cmd_search_range]
          cmd_search_range)
  have O: ?thesis if c: "c = CHR ''O''"
  proof -
    obtain ok w1 where l: "load_file p w = (ok, w1)" by (cases "load_file p w")
    show ?thesis using c l by (cases ok) (simp_all add: command_def load_file_range)
  qed
  have W: ?thesis if "c = CHR ''W''"
    using that by (simp add: command_def)
  have V: ?thesis if c: "c = CHR ''V''"
  proof (cases "cmd_fullscreen w")
    case None
    then show ?thesis using c by (simp add: command_def cmd_fullscreen_range)
  next
    case (Some t)
    obtain q w1 where t: "t = (q, w1)" by (cases t)
    show ?thesis using c Some t by (cases q) (simp_all add: command_def cmd_fullscreen_range)
  qed
  have other: ?thesis
    if "c \<noteq> CHR ''L''" "c \<noteq> CHR ''I''" "c \<noteq> CHR ''D''" "c \<noteq> CHR ''E''" "c \<noteq> CHR ''R''"
       "c \<noteq> CHR ''O''" "c \<noteq> CHR ''S''" "c \<noteq> CHR ''W''" "c \<noteq> CHR ''V''"
    using that by (simp add: command_def)
  show ?thesis using L I D E R S O W V other by blast
qed

lemma status_after:
  assumes "forget_range o2 = forget_range o1"
  shows "forget_range (case o2 of Next w2 \<Rightarrow> Next (status_line w2) | other \<Rightarrow> other)
       = forget_range (case o1 of Next w2 \<Rightarrow> Next (status_line w2) | other \<Rightarrow> other)"
proof -
  have st: "set_range 0 0 (status_line u) = set_range 0 0 (status_line v)"
    if "set_range 0 0 u = set_range 0 0 v" for u v
  proof -
    have "status_line (set_range 0 0 u) = status_line (set_range 0 0 v)"
      using that by (rule arg_cong)
    then show ?thesis by simp
  qed
  show ?thesis using assms by (cases o1; cases o2) (auto intro: st)
qed

lemma main_step_range:
  "forget_range (main_step (set_range x y w)) = forget_range (main_step w)"
proof -
  let ?w0 = "printf ''* '' w"
  show ?thesis
  proof (cases "fgets INPUT_LEN (stdin ?w0)")
    case None
    then show ?thesis by (simp add: main_step_def Let_def)
  next
    case (Some t)
    obtain inp rest where t: "t = (inp, rest)" by (cases t)
    show ?thesis
    proof (cases "dropWhile isspace (chomp inp)")
      case Nil
      then show ?thesis using Some t
        by (simp add: main_step_def Let_def del: dropWhile_eq_Nil_conv)
    next
      case (Cons c p1)
      define w1 where "w1 = ?w0\<lparr>stdin := rest\<rparr>"
      define p where "p = dropWhile isspace p1"
      have a: "main_step w = (case command (toupper c) p w1 of
                  Next w2 \<Rightarrow> Next (status_line w2) | other \<Rightarrow> other)"
        using Some t Cons by (simp add: main_step_def Let_def w1_def p_def)
      have b: "main_step (set_range x y w) = (case command (toupper c) p (set_range x y w1) of
                  Next w2 \<Rightarrow> Next (status_line w2) | other \<Rightarrow> other)"
        using Some t Cons by (simp add: main_step_def Let_def w1_def p_def)
      show ?thesis
        unfolding a b by (rule status_after) (rule command_range)
    qed
  qed
qed


text \<open>
  C9. The range memory is write-only. Run any command, or any whole turn of the
  loop in \<open>main\<close>, from two states that differ only in \<open>last_a\<close> and \<open>last_b\<close>:
  the two outcomes are of the same kind and their states agree in every field
  other than \<open>last_a\<close> and \<open>last_b\<close>, so the console output, the document, the
  files and the rest of the input are the same.
\<close>

theorem last_range_write_only:
  "forget_range (command c p (w\<lparr>last_a := x, last_b := y\<rparr>))
     = forget_range (command c p (w\<lparr>last_a := x', last_b := y'\<rparr>))
   \<and> forget_range (main_step (w\<lparr>last_a := x, last_b := y\<rparr>))
     = forget_range (main_step (w\<lparr>last_a := x', last_b := y'\<rparr>))"
proof -
  have c: "forget_range (command c p (set_range x y w))
             = forget_range (command c p (set_range x' y' w))"
    by (simp only: command_range)
  have m: "forget_range (main_step (set_range x y w))
             = forget_range (main_step (set_range x' y' w))"
    by (simp only: main_step_range)
  from c m show ?thesis by (simp add: set_range_def)
qed

theorem last_range_write_only_witness:
  "forget_range (command (CHR ''L'') [] (three_lines\<lparr>last_a := 2, last_b := 3\<rparr>))
     = forget_range (command (CHR ''L'') [] (three_lines\<lparr>last_a := 0, last_b := 0\<rparr>))
   \<and> forget_range (main_step (three_lines\<lparr>last_a := 2, last_b := 3\<rparr>))
     = forget_range (main_step (three_lines\<lparr>last_a := 0, last_b := 0\<rparr>))"
  by (rule last_range_write_only)

end
